theory Spec2Isabelle
  imports Main
begin

section \<open>Cells, text and the Cleanser\<close>

text \<open>
  A cell of a pandas object column is missing (\<open>None\<close>/\<open>NaN\<close>), a Python \<open>str\<close> or a
  Python \<open>int\<close>. Columns of a floating-point dtype are not modelled. Text is modelled
  as a list of ASCII characters: the whitespace class is the one \<open>str.strip\<close>,
  \<open>str.isspace\<close> and the regular expression \<open>\s\<close> share on ASCII (code points 9 to 13
  and 28 to 32), and \<open>str.upper\<close> maps \<open>a..z\<close> to \<open>A..Z\<close>.
\<close>

datatype cell = Missing | Text string | Num int

datatype error = KeyError string | ValueError string | MergeError string | TypeError

definition is_space :: "char \<Rightarrow> bool" where
  "is_space c = (let n = (of_char c :: nat) in (9 \<le> n \<and> n \<le> 13) \<or> (28 \<le> n \<and> n \<le> 32))"

text \<open>\<open>str.strip()\<close>: whitespace removed at both ends.\<close>

definition py_strip :: "string \<Rightarrow> string" where
  "py_strip s = rev (dropWhile is_space (rev (dropWhile is_space s)))"

text \<open>\<open>re.sub(r"\s+", " ", x)\<close>: scanning from the left, each maximal run of whitespace
  is replaced by one space.\<close>

function re_sub_ws :: "string \<Rightarrow> string" where
  "re_sub_ws [] = []"
| "re_sub_ws (c # cs) =
     (if is_space c then CHR '' '' # re_sub_ws (dropWhile is_space cs) else c # re_sub_ws cs)"
  by pat_completeness auto
termination
  by (relation "measure length") (auto simp: less_Suc_eq_le length_dropWhile_le)

definition upper_char :: "char \<Rightarrow> char" where
  "upper_char c = (let n = (of_char c :: nat) in if 97 \<le> n \<and> n \<le> 122 then char_of (n - 32) else c)"

definition py_upper :: "string \<Rightarrow> string" where
  "py_upper s = map upper_char s"

text \<open>\<open>str(i)\<close> for an integer: decimal digits, with a leading minus sign when negative.\<close>

definition digit_char :: "nat \<Rightarrow> char" where
  "digit_char d = char_of (48 + d)"

fun digits :: "nat \<Rightarrow> string" where
  "digits n = (if n < 10 then [digit_char n] else digits (n div 10) @ [digit_char (n mod 10)])"

declare digits.simps [simp del]

definition py_str_int :: "int \<Rightarrow> string" where
  "py_str_int i = (if i < 0 then CHR ''-'' # digits (nat (- i)) else digits (nat i))"

text \<open>\<open>Series.notna()\<close>, elementwise.\<close>

definition notna :: "cell \<Rightarrow> bool" where
  "notna c = (c \<noteq> Missing)"

text \<open>\<open>Series.astype(str)\<close>, elementwise. A missing cell would become the text
  \<open>nan\<close>; the Cleanser only converts cells selected by the \<open>notna\<close> mask.\<close>

fun astype_str :: "cell \<Rightarrow> cell" where
  "astype_str Missing = Text ''nan''"
| "astype_str (Text s) = Text s"
| "astype_str (Num i) = Text (py_str_int i)"

text \<open>The \<open>.str\<close> accessor methods, elementwise: an element that is not a string
  gives a missing result.\<close>

fun str_strip :: "cell \<Rightarrow> cell" where
  "str_strip (Text s) = Text (py_strip s)"
| "str_strip _ = Missing"

fun str_upper :: "cell \<Rightarrow> cell" where
  "str_upper (Text s) = Text (py_upper s)"
| "str_upper _ = Missing"

text \<open>\<open>lambda x: re.sub(r"\s+", " ", x)\<close>: \<open>re.sub\<close> raises \<open>TypeError\<close> on an argument
  that is not a string.\<close>

fun re_sub_cell :: "cell \<Rightarrow> error + cell" where
  "re_sub_cell (Text s) = Inr (Text (re_sub_ws s))"
| "re_sub_cell _ = Inl TypeError"

text \<open>\<open>Series.apply(f)\<close>: \<open>f\<close> on every element in order; the first exception ends it.\<close>

fun series_apply :: "(cell \<Rightarrow> error + cell) \<Rightarrow> cell list \<Rightarrow> error + cell list" where
  "series_apply f [] = Inr []"
| "series_apply f (x # xs) =
     (case f x of
        Inl e \<Rightarrow> Inl e
      | Inr y \<Rightarrow> (case series_apply f xs of Inl e \<Rightarrow> Inl e | Inr ys \<Rightarrow> Inr (y # ys)))"

text \<open>\<open>out.loc[mask]\<close> selects the elements at the positions where the mask holds;
  \<open>out.loc[mask] = v\<close> writes the elements of \<open>v\<close> (which carries the index of the
  selected positions) back to those positions and leaves the others.\<close>

fun loc_get :: "bool list \<Rightarrow> cell list \<Rightarrow> cell list" where
  "loc_get (m # ms) (x # xs) = (if m then x # loc_get ms xs else loc_get ms xs)"
| "loc_get _ _ = []"

fun loc_set :: "bool list \<Rightarrow> cell list \<Rightarrow> cell list \<Rightarrow> cell list" where
  "loc_set (m # ms) (x # xs) vs =
     (if m then (case vs of [] \<Rightarrow> x # loc_set ms xs [] | v # vs' \<Rightarrow> v # loc_set ms xs vs')
      else x # loc_set ms xs vs)"
| "loc_set _ xs _ = xs"

text \<open>\<open>cleanse_series(s, upper)\<close>. The guard \<open>if s is None: return s\<close> concerns a
  caller that passes no column; a column here is always a list of cells.\<close>

definition cleanse_series :: "cell list \<Rightarrow> bool \<Rightarrow> error + cell list" where
  "cleanse_series s upper =
     (let out0 = s;
          mask = map notna out0;
          out1 = loc_set mask out0 (map (str_strip \<circ> astype_str) (loc_get mask out0))
      in case series_apply re_sub_cell (loc_get mask out1) of
           Inl e \<Rightarrow> Inl e
         | Inr v \<Rightarrow>
             (let out2 = loc_set mask out1 v;
                  out3 = (if upper then loc_set mask out2 (map str_upper (loc_get mask out2))
                          else out2)
              in Inr out3))"

subsection \<open>The Cleanser's contract, in the specification's words\<close>

text \<open>The words of a text: its maximal runs of characters that are not whitespace.\<close>

function tokens :: "string \<Rightarrow> string list" where
  "tokens s =
     (case dropWhile is_space s of
        [] \<Rightarrow> []
      | c # cs \<Rightarrow> (c # takeWhile (\<lambda>x. \<not> is_space x) cs) # tokens (dropWhile (\<lambda>x. \<not> is_space x) cs))"
  by pat_completeness auto
termination
proof (relation "measure length")
  show "wf (measure length)" by simp
next
  fix s :: string and c cs
  assume "dropWhile is_space s = c # cs"
  then have "Suc (length cs) \<le> length s"
    by (metis length_Cons length_dropWhile_le)
  moreover have "length (dropWhile (\<lambda>x. \<not> is_space x) cs) \<le> length cs"
    by (rule length_dropWhile_le)
  ultimately show "(dropWhile (\<lambda>x. \<not> is_space x) cs, s) \<in> measure length"
    by simp
qed

declare tokens.simps [simp del]

text \<open>The words joined by single ASCII spaces.\<close>

fun unwords :: "string list \<Rightarrow> string" where
  "unwords [] = []"
| "unwords [w] = w"
| "unwords (w # v # ws) = w @ CHR '' '' # unwords (v # ws)"

text \<open>A text with leading and trailing whitespace removed and every internal run of
  whitespace collapsed to one space is the text's words joined by single spaces.\<close>

definition spec_normalise :: "bool \<Rightarrow> string \<Rightarrow> string" where
  "spec_normalise case_fold s =
     (let t = unwords (tokens s) in if case_fold then py_upper t else t)"

text \<open>The string representation of a present cell.\<close>

fun cell_repr :: "cell \<Rightarrow> string" where
  "cell_repr (Text s) = s"
| "cell_repr (Num i) = py_str_int i"
| "cell_repr Missing = []"

definition spec_cleanse_cell :: "bool \<Rightarrow> cell \<Rightarrow> cell" where
  "spec_cleanse_cell case_fold c =
     (case c of Missing \<Rightarrow> Missing | _ \<Rightarrow> Text (spec_normalise case_fold (cell_repr c)))"

text \<open>A list of words: each is non-empty and holds no whitespace.\<close>

definition words_ok :: "string list \<Rightarrow> bool" where
  "words_ok ws = (\<forall>w\<in>set ws. w \<noteq> [] \<and> (\<forall>x\<in>set w. \<not> is_space x))"

text \<open>The effect of \<open>cleanse_series\<close> on one cell, as a single function (shown below to
  be what the masked column operations compute).\<close>

definition normal_text :: "bool \<Rightarrow> string \<Rightarrow> string" where
  "normal_text upper s = (if upper then py_upper else id) (re_sub_ws (py_strip s))"

definition cleanse_cell :: "bool \<Rightarrow> cell \<Rightarrow> cell" where
  "cleanse_cell upper c =
     (case c of Missing \<Rightarrow> Missing | _ \<Rightarrow> Text (normal_text upper (cell_repr c)))"

section \<open>Tables\<close>

text \<open>
  A DataFrame is its column labels, in order, and its rows; every row has one cell per
  column. Labels are strings, and the labels of one table are distinct (the predicate
  \<open>wf_table\<close>): pandas allows repeated labels, with a behaviour that is not modelled.
  The row index is the position in the list: every table the pipeline handles carries
  the default index or a subsequence of it. The operations are those of pandas 2 on
  columns of the object dtype; what pandas does differently for a column of another
  dtype is not modelled.
\<close>

type_synonym row = "cell list"

record table =
  columns :: "string list"
  rows :: "row list"

definition wf_table :: "table \<Rightarrow> bool" where
  "wf_table df = (distinct (columns df) \<and> list_all (\<lambda>r. length r = length (columns df)) (rows df))"

fun col_index :: "string list \<Rightarrow> string \<Rightarrow> nat" where
  "col_index [] c = 0"
| "col_index (x # xs) c = (if x = c then 0 else Suc (col_index xs c))"

text \<open>\<open>df[c]\<close> for a label the table has: the column as a list of cells.\<close>

definition get_col :: "table \<Rightarrow> string \<Rightarrow> cell list" where
  "get_col df c = map (\<lambda>r. r ! col_index (columns df) c) (rows df)"

text \<open>\<open>df[c]\<close>: \<open>KeyError\<close> for a label the table does not have.\<close>

definition getitem :: "table \<Rightarrow> string \<Rightarrow> error + cell list" where
  "getitem df c = (if c \<in> set (columns df) then Inr (get_col df c) else Inl (KeyError c))"

text \<open>\<open>df[c] = v\<close>: replaces the column, or appends a new one when the label is new.\<close>

definition set_col :: "table \<Rightarrow> string \<Rightarrow> cell list \<Rightarrow> table" where
  "set_col df c v =
     (if c \<in> set (columns df)
      then df\<lparr>rows := map (\<lambda>(r, x). r[col_index (columns df) c := x]) (zip (rows df) v)\<rparr>
      else \<lparr>columns = columns df @ [c], rows = map (\<lambda>(r, x). r @ [x]) (zip (rows df) v)\<rparr>)"

text \<open>\<open>cleanse_df(df, cols, upper)\<close>: the loop over \<open>cols\<close>, on the copy of \<open>df\<close>.\<close>

fun cleanse_df :: "table \<Rightarrow> string list \<Rightarrow> bool \<Rightarrow> error + table" where
  "cleanse_df df [] upper = Inr df"
| "cleanse_df df (c # cs) upper =
     (if c \<in> set (columns df)
      then (case cleanse_series (get_col df c) upper of
              Inl e \<Rightarrow> Inl e
            | Inr v \<Rightarrow> cleanse_df (set_col df c v) cs upper)
      else cleanse_df df cs upper)"

text \<open>The effect of \<open>cleanse_df\<close> on one row (shown below): for each listed label that
  the table has, in turn, the cell at the label's position is cleansed.\<close>

definition cleanse_row :: "string list \<Rightarrow> string list \<Rightarrow> bool \<Rightarrow> row \<Rightarrow> row" where
  "cleanse_row labels cols upper r =
     fold (\<lambda>c r. if c \<in> set labels
                  then r[col_index labels c := cleanse_cell upper (r ! col_index labels c)]
                  else r) cols r"

text \<open>\<open>df.drop(columns=cs, errors="ignore")\<close>.\<close>

definition drop_columns :: "table \<Rightarrow> string list \<Rightarrow> table" where
  "drop_columns df cs =
     \<lparr>columns = filter (\<lambda>c. c \<notin> set cs) (columns df),
      rows = map (\<lambda>r. map snd (filter (\<lambda>(c, x). c \<notin> set cs) (zip (columns df) r))) (rows df)\<rparr>"

text \<open>
  \<open>frame.melt(id_vars, value_vars, var_name, value_name)\<close>. It raises, in this order,
  \<^item> \<open>ValueError\<close> when \<open>value_name\<close> is a label of the frame;
  \<^item> \<open>KeyError\<close> when an identifier or value variable is not a label of the frame;
  \<^item> \<open>ValueError\<close> when the frame has rows and there are more identifier variables
    than columns taken, which needs an identifier variable given several times: the
    identifier cells are repeated once per value column, and that count is negative;
  \<^item> \<open>KeyError\<close> when an identifier variable is given twice: the identifier columns
    are removed from the frame one by one (\<open>pop_id_vars\<close>), and the second removal of
    a column fails;
  \<^item> \<open>ValueError\<close> when an identifier variable is \<open>var_name\<close>, the label then
    standing twice among the labels of the melted frame.

  Otherwise it returns one row per value variable and frame row, the value variables in
  the outer loop, holding the identifier cells, the variable's label and the cell.
\<close>

fun pop_id_vars :: "string list \<Rightarrow> string list \<Rightarrow> error + string list" where
  "pop_id_vars labels [] = Inr labels"
| "pop_id_vars labels (k # ks) =
     (if k \<in> set labels then pop_id_vars (removeAll k labels) ks else Inl (KeyError k))"

definition melt_row :: "string list \<Rightarrow> string list \<Rightarrow> string \<Rightarrow> row \<Rightarrow> row" where
  "melt_row labels id_vars v r =
     map (\<lambda>k. r ! col_index labels k) id_vars @ [Text v, r ! col_index labels v]"

definition melt :: "table \<Rightarrow> string list \<Rightarrow> string list \<Rightarrow> string \<Rightarrow> string \<Rightarrow> error + table" where
  "melt frame id_vars value_vars var_name value_name =
     (if value_name \<in> set (columns frame) then Inl (ValueError value_name)
      else case filter (\<lambda>c. c \<notin> set (columns frame)) (id_vars @ value_vars) of
        c # _ \<Rightarrow> Inl (KeyError c)
      | [] \<Rightarrow>
          let taken = remdups (id_vars @ value_vars)
          in if rows frame \<noteq> [] \<and> length taken < length id_vars
             then Inl (ValueError (hd id_vars))
             else case pop_id_vars taken id_vars of
               Inl e \<Rightarrow> Inl e
             | Inr _ \<Rightarrow>
                 if var_name \<in> set id_vars then Inl (ValueError var_name)
                 else
                   Inr \<lparr>columns = id_vars @ [var_name, value_name],
                        rows = concat (map (\<lambda>v. map (melt_row (columns frame) id_vars v) (rows frame))
                                           value_vars)\<rparr>)"

text \<open>\<open>df[mask]\<close> for a boolean column \<open>mask\<close> (here \<open>flags\<close>): the rows at which it holds.\<close>

definition boolean_index :: "table \<Rightarrow> bool list \<Rightarrow> table" where
  "boolean_index df flags = df\<lparr>rows := map fst (filter snd (zip (rows df) flags))\<rparr>"

text \<open>
  \<open>left.merge(right, on=key, how=how, suffixes=(lsuffix, rsuffix))\<close> for \<open>how\<close> one of
  \<open>"inner"\<close> and \<open>"left"\<close>.
  \<^item> \<open>KeyError\<close> when a side has no column \<open>key\<close>.
  \<^item> A label other than \<open>key\<close> that both sides have gets the side's suffix;
    \<open>MergeError\<close> when that makes a label of one side equal to an earlier label of
    that side (and the two were not equal before).
  \<^item> Rows are matched on equality of the key cells (two missing keys match). The
    result follows the left rows in order; a left row is paired with each matching right
    row, in the right table's order; under \<open>"left"\<close> a left row without a match is kept,
    with missing cells in the right table's columns.
  \<^item> The key column appears once, at its left position: the labels of the result are
    the left labels, then the right labels without the key, also when a table has no
    rows.
\<close>

datatype how = HowInner | HowLeft

definition remove_nth :: "nat \<Rightarrow> 'a list \<Rightarrow> 'a list" where
  "remove_nth j xs = take j xs @ drop (Suc j) xs"

definition suffix_labels :: "string list \<Rightarrow> string list \<Rightarrow> string \<Rightarrow> string \<Rightarrow> string list" where
  "suffix_labels own other key sfx =
     map (\<lambda>c. if c \<in> set other \<and> c \<noteq> key then c @ sfx else c) own"

fun suffix_clash_from :: "string list \<Rightarrow> string list \<Rightarrow> (string \<times> string) list \<Rightarrow> bool" where
  "suffix_clash_from seen_own seen_new [] = False"
| "suffix_clash_from seen_own seen_new ((c, c') # rest) =
     ((c' \<in> set seen_new \<and> c \<notin> set seen_own) \<or> suffix_clash_from (c # seen_own) (c' # seen_new) rest)"

definition suffix_clash :: "string list \<Rightarrow> string list \<Rightarrow> bool" where
  "suffix_clash own renamed = suffix_clash_from [] [] (zip own renamed)"

definition merge_rows :: "how \<Rightarrow> nat \<Rightarrow> nat \<Rightarrow> nat \<Rightarrow> row list \<Rightarrow> row \<Rightarrow> row list" where
  "merge_rows hw i j n rrows l =
     (let ms = filter (\<lambda>r. r ! j = l ! i) rrows
      in if ms = [] \<and> hw = HowLeft then [l @ replicate (n - 1) Missing]
         else map (\<lambda>r. l @ remove_nth j r) ms)"

definition merge :: "table \<Rightarrow> table \<Rightarrow> string \<Rightarrow> how \<Rightarrow> string \<times> string \<Rightarrow> error + table" where
  "merge left right key hw suffixes =
     (if key \<notin> set (columns left) \<or> key \<notin> set (columns right) then Inl (KeyError key)
      else
        let llabels = suffix_labels (columns left) (columns right) key (fst suffixes);
            rlabels = suffix_labels (columns right) (columns left) key (snd suffixes);
            i = col_index (columns left) key;
            j = col_index (columns right) key
        in if suffix_clash (columns left) llabels \<or> suffix_clash (columns right) rlabels
           then Inl (MergeError key)
           else Inr \<lparr>columns = llabels @ remove_nth j rlabels,
                     rows = concat (map (merge_rows hw i j (length (columns right)) (rows right))
                                        (rows left))\<rparr>)"

text \<open>The table a merge returns when it raises nothing (shown below).\<close>

definition merged :: "table \<Rightarrow> table \<Rightarrow> string \<Rightarrow> how \<Rightarrow> string \<Rightarrow> table" where
  "merged left right key hw sfx =
     (let rlabels = suffix_labels (columns right) (columns left) key sfx;
          i = col_index (columns left) key;
          j = col_index (columns right) key
      in \<lparr>columns = columns left @ remove_nth j rlabels,
          rows = concat (map (merge_rows hw i j (length (columns right)) (rows right)) (rows left))\<rparr>)"

section \<open>The pipeline\<close>

definition default_key_fields :: "string list" where
  "default_key_fields = [''Respondent'', ''End time (GMT)'', ''Panel'']"

definition recon_cols_to_clean :: "string list" where
  "recon_cols_to_clean =
     [''Name'', ''Question number'', ''Section'', ''Question Text'', ''Answer Option'',
      ''Loop Variable'', ''Matrix Dimension'', ''Double Loop Var1'', ''Double Loop Var2'']"

text \<open>Step 2: the configured columns are dropped, when a non-empty list is given.\<close>

definition prune :: "table \<Rightarrow> string list option \<Rightarrow> table" where
  "prune responses_df drop_from_responses =
     (case drop_from_responses of
        None \<Rightarrow> responses_df
      | Some d \<Rightarrow>
          if d = [] then responses_df
          else drop_columns responses_df (filter (\<lambda>c. c \<in> set (columns responses_df)) d))"

text \<open>Steps 3 and 4: the key fields that exist, the other columns as value columns, the
  melt, and the rows whose \<open>Value\<close> is not missing.\<close>

definition key_fields_of :: "string list option \<Rightarrow> string list" where
  "key_fields_of responses_key_fields =
     (case responses_key_fields of None \<Rightarrow> default_key_fields | Some k \<Rightarrow> k)"

definition reshape :: "table \<Rightarrow> string list option \<Rightarrow> error + table" where
  "reshape responses_df responses_key_fields =
     (let keys = filter (\<lambda>c. c \<in> set (columns responses_df)) (key_fields_of responses_key_fields);
          data_cols = filter (\<lambda>c. c \<notin> set keys) (columns responses_df)
      in case melt responses_df keys data_cols ''Name'' ''Value'' of
           Inl e \<Rightarrow> Inl e
         | Inr long_df \<Rightarrow>
             (case getitem long_df ''Value'' of
                Inl e \<Rightarrow> Inl e
              | Inr v \<Rightarrow> Inr (boolean_index long_df (map notna v))))"

text \<open>Steps 5 to 7: the long table and the metadata table are cleansed, then joined
  on \<open>Name\<close> (inner join). This is Stage A.\<close>

definition stage_a :: "table \<Rightarrow> table \<Rightarrow> error + table" where
  "stage_a long_df recon_df =
     (case cleanse_df long_df [''Respondent'', ''Panel'', ''Name''] True of
        Inl e \<Rightarrow> Inl e
      | Inr long_clean \<Rightarrow>
          (case cleanse_df recon_df recon_cols_to_clean True of
             Inl e \<Rightarrow> Inl e
           | Inr recon_clean \<Rightarrow> merge long_clean recon_clean ''Name'' HowInner ([], ''_recon'')))"

text \<open>Step 8: the numeric table's \<open>Value\<close> is cleansed when the table has that column,
  the joined table's \<open>Value\<close> is cleansed, and the two are joined on \<open>Value\<close> (left
  join). This is Stage B.\<close>

definition cleanse_numerical :: "table \<Rightarrow> error + table" where
  "cleanse_numerical numerical_df =
     (if ''Value'' \<in> set (columns numerical_df)
      then (case cleanse_series (get_col numerical_df ''Value'') True of
              Inl e \<Rightarrow> Inl e
            | Inr v \<Rightarrow> Inr (set_col numerical_df ''Value'' v))
      else Inr numerical_df)"

definition cleanse_joined :: "table \<Rightarrow> error + table" where
  "cleanse_joined joined =
     (case getitem joined ''Value'' of
        Inl e \<Rightarrow> Inl e
      | Inr s \<Rightarrow>
          (case cleanse_series s True of
             Inl e \<Rightarrow> Inl e
           | Inr v \<Rightarrow> Inr (set_col joined ''Value'' v)))"

definition stage_b :: "table \<Rightarrow> table \<Rightarrow> error + table" where
  "stage_b joined numerical_df =
     (case cleanse_numerical numerical_df of
        Inl e \<Rightarrow> Inl e
      | Inr numerical_clean \<Rightarrow>
          (case cleanse_joined joined of
             Inl e \<Rightarrow> Inl e
           | Inr joined_clean \<Rightarrow> merge joined_clean numerical_clean ''Value'' HowLeft ([], ''_num'')))"

text \<open>\<open>build_qc_output\<close>. The parameter \<open>recon_sheet_expected\<close> is not read.\<close>

definition build_qc_output ::
  "table \<Rightarrow> table \<Rightarrow> table \<Rightarrow> string list option \<Rightarrow> string list option \<Rightarrow> bool \<Rightarrow> error + table" where
  "build_qc_output responses_df recon_df numerical_df drop_from_responses responses_key_fields
     recon_sheet_expected =
     (case cleanse_df responses_df [] False of
        Inl e \<Rightarrow> Inl e
      | Inr responses0 \<Rightarrow>
          (case reshape (prune responses0 drop_from_responses) responses_key_fields of
             Inl e \<Rightarrow> Inl e
           | Inr long_df \<Rightarrow>
               (case stage_a long_df recon_df of
                  Inl e \<Rightarrow> Inl e
                | Inr joined \<Rightarrow> stage_b joined numerical_df)))"

text \<open>The effect of step 8's two cleansings on one row (shown below): the cell at the
  position of \<open>Value\<close> is cleansed.\<close>

definition cleanse_at :: "nat \<Rightarrow> row \<Rightarrow> row" where
  "cleanse_at i r = r[i := cleanse_cell True (r ! i)]"

subsection \<open>Example inputs\<close>

text \<open>The tables of the specification's concrete scenario (section 8).\<close>

definition scenario_responses :: table where
  "scenario_responses =
     \<lparr>columns = [''Respondent'', ''Q1'', ''Q2''],
      rows = [[Text ''r1 '', Text '' yes '', Missing]]\<rparr>"

definition scenario_recon :: table where
  "scenario_recon = \<lparr>columns = [''Name'', ''Section''], rows = [[Text ''Q1'', Text ''A'']]\<rparr>"

definition scenario_numerical :: table where
  "scenario_numerical = \<lparr>columns = [''Value'', ''Code''], rows = [[Text ''YES'', Num 1]]\<rparr>"

text \<open>A larger input: two respondents, a column to drop, a question without metadata
  (\<open>Q9\<close>), a question with two metadata rows once cleansed (\<open>q1\<close>), and a numeric table
  in which two values are equal once cleansed.\<close>

definition sample_responses :: table where
  "sample_responses =
     \<lparr>columns = [''Respondent'', ''End time (GMT)'', ''Status'', ''q1'', ''Q2'', ''Q9''],
      rows = [[Text ''r1 '', Text ''10:00  am'', Text ''ok'', Text '' yes '', Missing, Text ''x''],
              [Text ''r2'', Text '' 11:30'', Text ''ok'', Text ''No'', Num 3, Missing]]\<rparr>"

definition sample_recon :: table where
  "sample_recon =
     \<lparr>columns = [''Name'', ''Section''],
      rows = [[Text ''q1 '', Text ''a''], [Text ''Q1'', Text ''b''], [Text ''Q2'', Text ''c'']]\<rparr>"

definition sample_numerical :: table where
  "sample_numerical =
     \<lparr>columns = [''Value'', ''Code''],
      rows = [[Text ''yes'', Num 1], [Text ''YES '', Num 11], [Text ''3'', Num 3]]\<rparr>"

text \<open>The larger input after the reshape (with \<open>Status\<close> dropped and the default key
  fields), after Stage A, and after Stage B.\<close>

definition sample_long :: table where
  "sample_long =
     \<lparr>columns = [''Respondent'', ''End time (GMT)'', ''Name'', ''Value''],
      rows = [[Text ''r1 '', Text ''10:00  am'', Text ''q1'', Text '' yes ''],
              [Text ''r2'', Text '' 11:30'', Text ''q1'', Text ''No''],
              [Text ''r2'', Text '' 11:30'', Text ''Q2'', Num 3],
              [Text ''r1 '', Text ''10:00  am'', Text ''Q9'', Text ''x'']]\<rparr>"

definition sample_joined :: table where
  "sample_joined =
     \<lparr>columns = [''Respondent'', ''End time (GMT)'', ''Name'', ''Value'', ''Section''],
      rows = [[Text ''R1'', Text ''10:00  am'', Text ''Q1'', Text '' yes '', Text ''A''],
              [Text ''R1'', Text ''10:00  am'', Text ''Q1'', Text '' yes '', Text ''B''],
              [Text ''R2'', Text '' 11:30'', Text ''Q1'', Text ''No'', Text ''A''],
              [Text ''R2'', Text '' 11:30'', Text ''Q1'', Text ''No'', Text ''B''],
              [Text ''R2'', Text '' 11:30'', Text ''Q2'', Num 3, Text ''C'']]\<rparr>"

definition sample_out :: table where
  "sample_out =
     \<lparr>columns = [''Respondent'', ''End time (GMT)'', ''Name'', ''Value'', ''Section'', ''Code''],
      rows = [[Text ''R1'', Text ''10:00  am'', Text ''Q1'', Text ''YES'', Text ''A'', Num 1],
              [Text ''R1'', Text ''10:00  am'', Text ''Q1'', Text ''YES'', Text ''A'', Num 11],
              [Text ''R1'', Text ''10:00  am'', Text ''Q1'', Text ''YES'', Text ''B'', Num 1],
              [Text ''R1'', Text ''10:00  am'', Text ''Q1'', Text ''YES'', Text ''B'', Num 11],
              [Text ''R2'', Text '' 11:30'', Text ''Q1'', Text ''NO'', Text ''A'', Missing],
              [Text ''R2'', Text '' 11:30'', Text ''Q1'', Text ''NO'', Text ''B'', Missing],
              [Text ''R2'', Text '' 11:30'', Text ''Q2'', Text ''3'', Text ''C'', Num 3]]\<rparr>"

text \<open>The same Stage-A table joined with the scenario's numeric table, whose values are
  distinct.\<close>

definition sample_out_distinct :: table where
  "sample_out_distinct =
     \<lparr>columns = [''Respondent'', ''End time (GMT)'', ''Name'', ''Value'', ''Section'', ''Code''],
      rows = [[Text ''R1'', Text ''10:00  am'', Text ''Q1'', Text ''YES'', Text ''A'', Num 1],
              [Text ''R1'', Text ''10:00  am'', Text ''Q1'', Text ''YES'', Text ''B'', Num 1],
              [Text ''R2'', Text '' 11:30'', Text ''Q1'', Text ''NO'', Text ''A'', Missing],
              [Text ''R2'', Text '' 11:30'', Text ''Q1'', Text ''NO'', Text ''B'', Missing],
              [Text ''R2'', Text '' 11:30'', Text ''Q2'', Text ''3'', Text ''C'', Missing]]\<rparr>"

text \<open>The scenario's tables after the reshape, after step 5, after Stage A, after the
  cleansing of \<open>Value\<close> in step 8, and after Stage B.\<close>

definition scenario_long :: table where
  "scenario_long =
     \<lparr>columns = [''Respondent'', ''Name'', ''Value''],
      rows = [[Text ''r1 '', Text ''Q1'', Text '' yes '']]\<rparr>"

definition scenario_long_clean :: table where
  "scenario_long_clean =
     \<lparr>columns = [''Respondent'', ''Name'', ''Value''],
      rows = [[Text ''R1'', Text ''Q1'', Text '' yes '']]\<rparr>"

definition scenario_joined :: table where
  "scenario_joined =
     \<lparr>columns = [''Respondent'', ''Name'', ''Value'', ''Section''],
      rows = [[Text ''R1'', Text ''Q1'', Text '' yes '', Text ''A'']]\<rparr>"

definition scenario_joined_clean :: table where
  "scenario_joined_clean =
     \<lparr>columns = [''Respondent'', ''Name'', ''Value'', ''Section''],
      rows = [[Text ''R1'', Text ''Q1'', Text ''YES'', Text ''A'']]\<rparr>"

definition scenario_out :: table where
  "scenario_out =
     \<lparr>columns = [''Respondent'', ''Name'', ''Value'', ''Section'', ''Code''],
      rows = [[Text ''R1'', Text ''Q1'', Text ''YES'', Text ''A'', Num 1]]\<rparr>"

text \<open>Tables without rows, and a table without columns (an empty sheet).\<close>

definition recon_no_rows :: table where
  "recon_no_rows = \<lparr>columns = [''Name'', ''Section''], rows = []\<rparr>"

definition numerical_no_rows :: table where
  "numerical_no_rows = \<lparr>columns = [''Value'', ''Code''], rows = []\<rparr>"

definition no_columns :: table where
  "no_columns = \<lparr>columns = [], rows = []\<rparr>"

section \<open>The pipeline on a store of objects\<close>

text \<open>
  To state what a run leaves unchanged, the pipeline is modelled a second time with the
  tables as objects in a store: an address is a position in the list of objects, a new
  object is appended, and an assignment in place (\<open>out.loc[mask] = v\<close>, \<open>df[c] = s\<close>)
  replaces the object at its address. Each function below follows the source statement
  by statement: \<open>.copy()\<close>, \<open>drop\<close>, \<open>melt\<close>, the boolean selection and \<open>merge\<close>
  return new objects; \<open>df[c]\<close> returns a view of the table's column, so that a write
  to it would reach the table.
\<close>

type_synonym addr = nat

datatype obj = Frame table | Series "cell list"

type_synonym heap = "obj list"

datatype sref = Own addr | View addr string

definition empty_table :: table where
  "empty_table = \<lparr>columns = [], rows = []\<rparr>"

definition frame_at :: "heap \<Rightarrow> addr \<Rightarrow> table" where
  "frame_at h a =
     (if a < length h then (case h ! a of Frame t \<Rightarrow> t | Series v \<Rightarrow> empty_table) else empty_table)"

definition alloc :: "obj \<Rightarrow> heap \<Rightarrow> addr \<times> heap" where
  "alloc ob h = (length h, h @ [ob])"

fun series_read :: "heap \<Rightarrow> sref \<Rightarrow> cell list" where
  "series_read h (Own a) =
     (if a < length h then (case h ! a of Series v \<Rightarrow> v | Frame t \<Rightarrow> []) else [])"
| "series_read h (View a c) = get_col (frame_at h a) c"

fun series_write :: "sref \<Rightarrow> cell list \<Rightarrow> heap \<Rightarrow> heap" where
  "series_write (Own a) v h = h[a := Series v]"
| "series_write (View a c) v h = h[a := Frame (set_col (frame_at h a) c v)]"

definition df_copy :: "addr \<Rightarrow> heap \<Rightarrow> addr \<times> heap" where
  "df_copy a h = alloc (Frame (frame_at h a)) h"

definition series_copy :: "sref \<Rightarrow> heap \<Rightarrow> sref \<times> heap" where
  "series_copy s h = (Own (length h), h @ [Series (series_read h s)])"

definition loc_assign :: "sref \<Rightarrow> bool list \<Rightarrow> cell list \<Rightarrow> heap \<Rightarrow> heap" where
  "loc_assign s flags v h = series_write s (loc_set flags (series_read h s) v) h"

definition df_setitem :: "addr \<Rightarrow> string \<Rightarrow> sref \<Rightarrow> heap \<Rightarrow> heap" where
  "df_setitem a c s h = h[a := Frame (set_col (frame_at h a) c (series_read h s))]"

definition new_frame :: "error + table \<Rightarrow> heap \<Rightarrow> (error + addr) \<times> heap" where
  "new_frame r h = (case r of Inl e \<Rightarrow> (Inl e, h) | Inr t \<Rightarrow> (Inr (length h), h @ [Frame t]))"

definition cleanse_series_h :: "sref \<Rightarrow> bool \<Rightarrow> heap \<Rightarrow> (error + sref) \<times> heap" where
  "cleanse_series_h s upper h =
     (let (out, h1) = series_copy s h;
          flags = map notna (series_read h1 out);
          h2 = loc_assign out flags
                 (map (str_strip \<circ> astype_str) (loc_get flags (series_read h1 out))) h1
      in case series_apply re_sub_cell (loc_get flags (series_read h2 out)) of
           Inl e \<Rightarrow> (Inl e, h2)
         | Inr v \<Rightarrow>
             (let h3 = loc_assign out flags v h2;
                  h4 = (if upper
                        then loc_assign out flags (map str_upper (loc_get flags (series_read h3 out))) h3
                        else h3)
              in (Inr out, h4)))"

fun cleanse_df_loop_h :: "addr \<Rightarrow> string list \<Rightarrow> bool \<Rightarrow> heap \<Rightarrow> (error + addr) \<times> heap" where
  "cleanse_df_loop_h df [] upper h = (Inr df, h)"
| "cleanse_df_loop_h df (c # cs) upper h =
     (if c \<in> set (columns (frame_at h df))
      then (case cleanse_series_h (View df c) upper h of
              (Inl e, h') \<Rightarrow> (Inl e, h')
            | (Inr s, h') \<Rightarrow> cleanse_df_loop_h df cs upper (df_setitem df c s h'))
      else cleanse_df_loop_h df cs upper h)"

definition cleanse_df_h :: "addr \<Rightarrow> string list \<Rightarrow> bool \<Rightarrow> heap \<Rightarrow> (error + addr) \<times> heap" where
  "cleanse_df_h a cols upper h = (let (df, h1) = df_copy a h in cleanse_df_loop_h df cols upper h1)"

definition prune_h :: "addr \<Rightarrow> string list option \<Rightarrow> heap \<Rightarrow> addr \<times> heap" where
  "prune_h responses_df drop_from_responses h =
     (case drop_from_responses of
        None \<Rightarrow> (responses_df, h)
      | Some d \<Rightarrow>
          if d = [] then (responses_df, h)
          else alloc (Frame (drop_columns (frame_at h responses_df)
                               (filter (\<lambda>c. c \<in> set (columns (frame_at h responses_df))) d))) h)"

definition reshape_h :: "addr \<Rightarrow> string list option \<Rightarrow> heap \<Rightarrow> (error + addr) \<times> heap" where
  "reshape_h responses_df responses_key_fields h =
     (let cols = columns (frame_at h responses_df);
          keys = filter (\<lambda>c. c \<in> set cols) (key_fields_of responses_key_fields);
          data_cols = filter (\<lambda>c. c \<notin> set keys) cols
      in case new_frame (melt (frame_at h responses_df) keys data_cols ''Name'' ''Value'') h of
           (Inl e, h1) \<Rightarrow> (Inl e, h1)
         | (Inr long_df, h1) \<Rightarrow>
             (case getitem (frame_at h1 long_df) ''Value'' of
                Inl e \<Rightarrow> (Inl e, h1)
              | Inr v \<Rightarrow>
                  (let (selected, h2) = alloc (Frame (boolean_index (frame_at h1 long_df) (map notna v))) h1;
                       (copied, h3) = df_copy selected h2
                   in (Inr copied, h3))))"

definition stage_a_h :: "addr \<Rightarrow> addr \<Rightarrow> heap \<Rightarrow> (error + addr) \<times> heap" where
  "stage_a_h long_df recon_df h =
     (case cleanse_df_h long_df [''Respondent'', ''Panel'', ''Name''] True h of
        (Inl e, h1) \<Rightarrow> (Inl e, h1)
      | (Inr long_clean, h1) \<Rightarrow>
          (case cleanse_df_h recon_df recon_cols_to_clean True h1 of
             (Inl e, h2) \<Rightarrow> (Inl e, h2)
           | (Inr recon_clean, h2) \<Rightarrow>
               new_frame (merge (frame_at h2 long_clean) (frame_at h2 recon_clean)
                            ''Name'' HowInner ([], ''_recon'')) h2))"

definition cleanse_numerical_h :: "addr \<Rightarrow> heap \<Rightarrow> (error + addr) \<times> heap" where
  "cleanse_numerical_h numerical_df h =
     (if ''Value'' \<in> set (columns (frame_at h numerical_df))
      then (let (copied, h1) = df_copy numerical_df h
            in case cleanse_series_h (View copied ''Value'') True h1 of
                 (Inl e, h2) \<Rightarrow> (Inl e, h2)
               | (Inr s, h2) \<Rightarrow> (Inr copied, df_setitem copied ''Value'' s h2))
      else (Inr numerical_df, h))"

definition cleanse_joined_h :: "addr \<Rightarrow> heap \<Rightarrow> (error + addr) \<times> heap" where
  "cleanse_joined_h joined h =
     (if ''Value'' \<in> set (columns (frame_at h joined))
      then (case cleanse_series_h (View joined ''Value'') True h of
              (Inl e, h1) \<Rightarrow> (Inl e, h1)
            | (Inr s, h1) \<Rightarrow> (Inr joined, df_setitem joined ''Value'' s h1))
      else (Inl (KeyError ''Value''), h))"

definition stage_b_h :: "addr \<Rightarrow> addr \<Rightarrow> heap \<Rightarrow> (error + addr) \<times> heap" where
  "stage_b_h joined numerical_df h =
     (case cleanse_numerical_h numerical_df h of
        (Inl e, h1) \<Rightarrow> (Inl e, h1)
      | (Inr numerical_clean, h1) \<Rightarrow>
          (case cleanse_joined_h joined h1 of
             (Inl e, h2) \<Rightarrow> (Inl e, h2)
           | (Inr joined_clean, h2) \<Rightarrow>
               new_frame (merge (frame_at h2 joined_clean) (frame_at h2 numerical_clean)
                            ''Value'' HowLeft ([], ''_num'')) h2))"

definition build_qc_output_h ::
  "addr \<Rightarrow> addr \<Rightarrow> addr \<Rightarrow> string list option \<Rightarrow> string list option \<Rightarrow> bool \<Rightarrow> heap
     \<Rightarrow> (error + addr) \<times> heap" where
  "build_qc_output_h responses_df recon_df numerical_df drop_from_responses responses_key_fields
     recon_sheet_expected h =
     (case cleanse_df_h responses_df [] False h of
        (Inl e, h1) \<Rightarrow> (Inl e, h1)
      | (Inr responses0, h1) \<Rightarrow>
          (let (pruned, h2) = prune_h responses0 drop_from_responses h1
           in case reshape_h pruned responses_key_fields h2 of
                (Inl e, h3) \<Rightarrow> (Inl e, h3)
              | (Inr long_df, h3) \<Rightarrow>
                  (case stage_a_h long_df recon_df h3 of
                     (Inl e, h4) \<Rightarrow> (Inl e, h4)
                   | (Inr joined, h4) \<Rightarrow> stage_b_h joined numerical_df h4)))"

text \<open>The objects at the addresses below \<open>n\<close> are the same in both stores.\<close>

definition unchanged_below :: "nat \<Rightarrow> heap \<Rightarrow> heap \<Rightarrow> bool" where
  "unchanged_below n h h' = (n \<le> length h \<and> n \<le> length h' \<and> take n h' = take n h)"

text \<open>A run on the store returns what the pure function returns: the same error, or the
  address of a new object holding the same table.\<close>

definition returns :: "heap \<Rightarrow> (error + addr) \<times> heap \<Rightarrow> error + table \<Rightarrow> bool" where
  "returns h res pure =
     (case res of
        (Inl e, h') \<Rightarrow> pure = Inl e
      | (Inr a, h') \<Rightarrow> length h \<le> a \<and> a < length h' \<and> pure = Inr (frame_at h' a))"

text \<open>The scenario's three tables as the objects at the addresses 0, 1 and 2.\<close>

definition scenario_heap :: heap where
  "scenario_heap = [Frame scenario_responses, Frame scenario_recon, Frame scenario_numerical]"

section \<open>Properties of the Cleanser\<close>

subsection \<open>The masked column operations compute a cell-wise function\<close>

lemma loc_get_map: "loc_get (map P xs) (map g xs) = map g (filter P xs)"
  by (induction xs) auto

lemma loc_set_map:
  "loc_set (map P xs) (map g xs) (map h (filter P xs)) = map (\<lambda>x. if P x then h x else g x) xs"
  by (induction xs) auto

lemma series_apply_Inr:
  "(\<And>x. x \<in> set xs \<Longrightarrow> f x = Inr (g x)) \<Longrightarrow> series_apply f xs = Inr (map g xs)"
  by (induction xs) auto

lemma cleanse_series_map: "cleanse_series s upper = Inr (map (cleanse_cell upper) s)"
proof -
  let ?P = notna
  let ?k = "str_strip \<circ> astype_str"
  let ?g1 = "\<lambda>x. if ?P x then ?k x else x"
  have o1: "loc_set (map ?P s) s (map ?k (loc_get (map ?P s) s)) = map ?g1 s"
    using loc_set_map[of ?P s id ?k] loc_get_map[of ?P s id] by simp
  let ?r = "\<lambda>x. case x of Text t \<Rightarrow> Text (re_sub_ws t) | _ \<Rightarrow> x"
  have ap: "series_apply re_sub_cell (loc_get (map ?P s) (map ?g1 s)) = Inr (map ?r (map ?g1 (filter ?P s)))"
    unfolding loc_get_map
    by (rule series_apply_Inr) (auto simp: notna_def split: cell.splits elim!: astype_str.elims str_strip.elims)
  let ?g2 = "\<lambda>x. if ?P x then ?r (?g1 x) else ?g1 x"
  have o2: "loc_set (map ?P s) (map ?g1 s) (map ?r (map ?g1 (filter ?P s))) = map ?g2 s"
    using loc_set_map[of ?P s ?g1 "?r \<circ> ?g1"] by simp
  let ?g3 = "\<lambda>x. if ?P x then str_upper (?g2 x) else ?g2 x"
  have o3: "loc_set (map ?P s) (map ?g2 s) (map str_upper (loc_get (map ?P s) (map ?g2 s))) = map ?g3 s"
    using loc_set_map[of ?P s ?g2 "str_upper \<circ> ?g2"] loc_get_map[of ?P s ?g2] by simp
  have p2: "?g2 c = cleanse_cell False c" for c
    by (cases c) (simp_all add: cleanse_cell_def normal_text_def notna_def)
  have p3: "?g3 c = cleanse_cell True c" for c
    by (cases c) (simp_all add: cleanse_cell_def normal_text_def notna_def)
  have "cleanse_series s upper = Inr (if upper then map ?g3 s else map ?g2 s)"
    unfolding cleanse_series_def Let_def o1 ap sum.case o2 o3 by simp
  then show ?thesis
    using p2 p3 by (cases upper) simp_all
qed

subsection \<open>Stripping and collapsing give the words joined by single spaces\<close>

lemma tokens_Nil [simp]: "tokens [] = []"
  by (simp add: tokens.simps)

lemma tokens_dropWhile: "tokens (dropWhile is_space s) = tokens s"
  by (subst (1 2) tokens.simps) simp

lemma re_sub_ws_word: "\<forall>x\<in>set w. \<not> is_space x \<Longrightarrow> re_sub_ws (w @ r) = w @ re_sub_ws r"
  by (induction w) auto

lemma tokens_Nil_case: "dropWhile is_space s = [] \<Longrightarrow> tokens s = []"
  by (subst tokens.simps) (simp del: dropWhile_eq_Nil_conv)

lemma tokens_Cons_case:
  "dropWhile is_space s = c # cs \<Longrightarrow>
   tokens s = (c # takeWhile (\<lambda>x. \<not> is_space x) cs) # tokens (dropWhile (\<lambda>x. \<not> is_space x) cs)"
  by (subst tokens.simps) simp

lemma tokens_empty_iff: "tokens s = [] \<longleftrightarrow> dropWhile is_space s = []"
proof (cases "dropWhile is_space s")
  case Nil
  then show ?thesis using tokens_Nil_case[of s] by simp
next
  case (Cons c cs)
  then show ?thesis using tokens_Cons_case[of s c cs] by (simp del: dropWhile_eq_Nil_conv)
qed

lemma re_sub_ws_tokens:
  "s = [] \<or> \<not> is_space (last s) \<Longrightarrow> re_sub_ws (dropWhile is_space s) = unwords (tokens s)"
proof (induction s rule: tokens.induct)
  case (1 s)
  show ?case
  proof (cases "dropWhile is_space s")
    case Nil
    then show ?thesis using tokens_Nil_case[of s] by (simp del: dropWhile_eq_Nil_conv)
  next
    case (Cons c cs)
    let ?w = "takeWhile (\<lambda>x. \<not> is_space x) cs"
    let ?r = "dropWhile (\<lambda>x. \<not> is_space x) cs"
    have c: "\<not> is_space c"
      using Cons hd_dropWhile[of is_space s] by (simp del: dropWhile_eq_Nil_conv)
    have tk: "tokens s = (c # ?w) # tokens ?r"
      by (rule tokens_Cons_case[OF Cons])
    have split: "c # cs = (c # ?w) @ ?r" by simp
    have w: "\<forall>x\<in>set (c # ?w). \<not> is_space x"
      using c by (auto dest: set_takeWhileD)
    have rs: "re_sub_ws (c # cs) = (c # ?w) @ re_sub_ws ?r"
      using re_sub_ws_word[OF w, of ?r] by simp
    show ?thesis
    proof (cases ?r)
      case Nil
      then have "re_sub_ws (c # cs) = c # ?w" "tokens s = [c # ?w]"
        using rs tk by (simp_all del: dropWhile_eq_Nil_conv re_sub_ws.simps(2))
      then show ?thesis using \<open>dropWhile is_space s = c # cs\<close> by simp
    next
      case (Cons d ds)
      have d: "is_space d"
        using Cons hd_dropWhile[of "\<lambda>x. \<not> is_space x" cs] by (simp del: dropWhile_eq_Nil_conv)
      have sne: "s \<noteq> []" using \<open>dropWhile is_space s = c # cs\<close> by auto
      have "last (takeWhile is_space s @ dropWhile is_space s) = last (dropWhile is_space s)"
        using \<open>dropWhile is_space s = c # cs\<close> by (intro last_appendR) simp
      then have "last s = last (dropWhile is_space s)"
        by (simp only: takeWhile_dropWhile_id)
      then have "last s = last (c # cs)"
        by (simp only: \<open>dropWhile is_space s = c # cs\<close>)
      also have "\<dots> = last ((c # ?w) @ ?r)" by simp
      also have "\<dots> = last ?r"
        using Cons by (intro last_appendR) simp
      finally have lr: "\<not> is_space (last ?r)" using "1.prems" sne by simp
      have ih: "re_sub_ws (dropWhile is_space ?r) = unwords (tokens ?r)"
        using "1.IH"[OF \<open>dropWhile is_space s = c # cs\<close>] lr by simp
      have "last ?r \<in> set ?r" using Cons by (intro last_in_set) simp
      then have dne: "dropWhile is_space ?r \<noteq> []"
        using lr by (auto simp: dropWhile_eq_Nil_conv)
      then have tne: "tokens ?r \<noteq> []" by (simp add: tokens_empty_iff)
      have "re_sub_ws ?r = CHR '' '' # re_sub_ws (dropWhile is_space ?r)"
        using Cons d by simp
      then have "re_sub_ws (c # cs) = (c # ?w) @ CHR '' '' # unwords (tokens ?r)"
        using rs ih by simp
      moreover have "unwords (tokens s) = (c # ?w) @ CHR '' '' # unwords (tokens ?r)"
        using tk tne by (cases "tokens ?r") simp_all
      ultimately show ?thesis using \<open>dropWhile is_space s = c # cs\<close> by simp
    qed
  qed
qed

lemma tokens_append_spaces:
  "\<forall>x\<in>set ws. is_space x \<Longrightarrow> tokens (u @ ws) = tokens u"
proof (induction u rule: tokens.induct)
  case (1 u)
  have wsd: "dropWhile is_space ws = []" using "1.prems" by simp
  show ?case
  proof (cases "dropWhile is_space u")
    case Nil
    then have "dropWhile is_space (u @ ws) = []" using "1.prems" by simp
    then show ?thesis using Nil tokens_Nil_case[of u] tokens_Nil_case[of "u @ ws"] by simp
  next
    case (Cons c cs)
    let ?n = "\<lambda>x. \<not> is_space x"
    have "c \<in> set u" using Cons set_dropWhileD[of c is_space u] by simp
    moreover have "\<not> is_space c"
      using Cons hd_dropWhile[of is_space u] by (simp del: dropWhile_eq_Nil_conv)
    ultimately have dw: "dropWhile is_space (u @ ws) = c # cs @ ws"
      using Cons dropWhile_append1[of c u is_space ws] by simp
    have tw: "takeWhile ?n (cs @ ws) = takeWhile ?n cs"
    proof (cases "\<forall>x\<in>set cs. ?n x")
      case True
      then have "takeWhile ?n (cs @ ws) = cs @ takeWhile ?n ws" by (simp add: takeWhile_append)
      moreover have "takeWhile ?n ws = []" using "1.prems" by (cases ws) simp_all
      moreover have "takeWhile ?n cs = cs" using True by (simp add: takeWhile_eq_all_conv)
      ultimately show ?thesis by (simp only: append_Nil2)
    next
      case False
      then show ?thesis by (auto simp: takeWhile_append)
    qed
    have dr: "dropWhile ?n (cs @ ws) = dropWhile ?n cs @ ws"
    proof (cases "\<forall>x\<in>set cs. ?n x")
      case True
      then show ?thesis using "1.prems" by (cases ws) (simp_all add: dropWhile_append)
    next
      case False
      then show ?thesis by (auto simp: dropWhile_append)
    qed
    have "tokens (u @ ws) = (c # takeWhile ?n cs) # tokens (dropWhile ?n cs @ ws)"
      using tokens_Cons_case[OF dw] by (simp add: tw dr)
    also have "\<dots> = (c # takeWhile ?n cs) # tokens (dropWhile ?n cs)"
      using "1.IH"[OF Cons] "1.prems" by simp
    also have "\<dots> = tokens u"
      using tokens_Cons_case[OF Cons] by simp
    finally show ?thesis .
  qed
qed

lemma py_strip_tokens: "tokens (py_strip s) = tokens s"
proof -
  let ?u = "dropWhile is_space s"
  have "rev (rev ?u) = rev (takeWhile is_space (rev ?u) @ dropWhile is_space (rev ?u))"
    by (simp only: takeWhile_dropWhile_id)
  then have "?u = rev (dropWhile is_space (rev ?u)) @ rev (takeWhile is_space (rev ?u))"
    by (simp only: rev_rev_ident rev_append)
  then have "tokens ?u = tokens (py_strip s @ rev (takeWhile is_space (rev ?u)))"
    by (simp add: py_strip_def)
  also have "\<dots> = tokens (py_strip s)"
    by (rule tokens_append_spaces) (auto dest: set_takeWhileD)
  finally show ?thesis by (simp add: tokens_dropWhile)
qed

lemma py_strip_no_trail: "py_strip s = [] \<or> \<not> is_space (last (py_strip s))"
proof (cases "py_strip s = []")
  case False
  let ?d = "dropWhile is_space (rev (dropWhile is_space s))"
  have "?d \<noteq> []" using False by (simp add: py_strip_def)
  then have "\<not> is_space (hd ?d)" by (rule hd_dropWhile)
  moreover have "last (py_strip s) = hd ?d"
    using \<open>?d \<noteq> []\<close> by (simp add: py_strip_def last_rev)
  ultimately show ?thesis by simp
qed simp

lemma py_strip_no_lead: "dropWhile is_space (py_strip s) = py_strip s"
proof (cases "py_strip s")
  case (Cons c cs)
  let ?u = "dropWhile is_space s"
  have "rev (rev ?u) = rev (takeWhile is_space (rev ?u) @ dropWhile is_space (rev ?u))"
    by (simp only: takeWhile_dropWhile_id)
  then have u: "?u = py_strip s @ rev (takeWhile is_space (rev ?u))"
    unfolding py_strip_def by (simp only: rev_rev_ident rev_append)
  then have une: "?u \<noteq> []" using Cons by (auto simp del: dropWhile_eq_Nil_conv)
  from une have "\<not> is_space (hd ?u)" by (rule hd_dropWhile)
  moreover have "hd ?u = c" using arg_cong[OF u, of hd] Cons by simp
  ultimately show ?thesis using Cons by simp
qed simp

lemma strip_collapse_spec: "re_sub_ws (py_strip s) = unwords (tokens s)"
  using re_sub_ws_tokens[OF py_strip_no_trail, of s] by (simp add: py_strip_no_lead py_strip_tokens)

subsection \<open>Upper-casing and whitespace\<close>

lemma of_char_lt_256: "(of_char c :: nat) < 256"
proof -
  have "(of_char c :: nat) mod 256 = of_char c" by (rule of_char_mod_256)
  then show ?thesis by (metis mod_less_divisor zero_less_numeral)
qed

lemma upper_char_lower:
  assumes "97 \<le> (of_char c :: nat)" "(of_char c :: nat) \<le> 122"
  shows "(of_char (upper_char c) :: nat) = of_char c - 32"
proof -
  define n where "n = (of_char c :: nat)"
  have "n - 32 < 256" using assms unfolding n_def[symmetric] by arith
  then have "(n - 32) mod 256 = n - 32" by (rule mod_less)
  moreover have "upper_char c = char_of (n - 32)"
    using assms by (simp add: upper_char_def Let_def n_def)
  ultimately show ?thesis by (simp add: n_def)
qed

lemma upper_char_other:
  "\<not> (97 \<le> (of_char c :: nat) \<and> (of_char c :: nat) \<le> 122) \<Longrightarrow> upper_char c = c"
  by (auto simp: upper_char_def Let_def)

lemma is_space_upper_char [simp]: "is_space (upper_char c) = is_space c"
proof (cases "97 \<le> (of_char c :: nat) \<and> (of_char c :: nat) \<le> 122")
  case True
  define n where "n = (of_char c :: nat)"
  have n: "97 \<le> n" "n \<le> 122" using True by (simp_all add: n_def)
  have "is_space (upper_char c) = ((9 \<le> n - 32 \<and> n - 32 \<le> 13) \<or> (28 \<le> n - 32 \<and> n - 32 \<le> 32))"
    using upper_char_lower[of c] True by (simp add: is_space_def Let_def n_def)
  also have "\<dots> = False" using n by arith
  also have "False = ((9 \<le> n \<and> n \<le> 13) \<or> (28 \<le> n \<and> n \<le> 32))" using n by arith
  also have "\<dots> = is_space c" by (simp add: is_space_def Let_def n_def)
  finally show ?thesis .
next
  case False
  then have "upper_char c = c" by (rule upper_char_other)
  then show ?thesis by simp
qed

lemma upper_char_idem [simp]: "upper_char (upper_char c) = upper_char c"
proof (cases "97 \<le> (of_char c :: nat) \<and> (of_char c :: nat) \<le> 122")
  case True
  define n where "n = (of_char c :: nat)"
  have n: "97 \<le> n" "n \<le> 122" using True by (simp_all add: n_def)
  have "(of_char (upper_char c) :: nat) = n - 32"
    using upper_char_lower[of c] True by (simp add: n_def)
  moreover have "\<not> (97 \<le> n - 32 \<and> n - 32 \<le> 122)" using n by arith
  ultimately have "\<not> (97 \<le> (of_char (upper_char c) :: nat) \<and> (of_char (upper_char c) :: nat) \<le> 122)"
    by auto
  then show ?thesis by (rule upper_char_other)
next
  case False
  then have "upper_char c = c" by (rule upper_char_other)
  then show ?thesis by simp
qed

lemma upper_char_space [simp]: "upper_char CHR '' '' = CHR '' ''"
  by (simp add: upper_char_def)

subsection \<open>Normal forms are fixed points\<close>

lemma tokens_word:
  assumes "w \<noteq> []" "\<forall>x\<in>set w. \<not> is_space x" "r = [] \<or> is_space (hd r)"
  shows "tokens (w @ r) = w # tokens r"
proof -
  obtain c cs where w: "w = c # cs" using assms(1) by (cases w) auto
  let ?n = "\<lambda>x. \<not> is_space x"
  have c: "\<not> is_space c" and cs: "\<forall>x\<in>set cs. ?n x" using assms(2) w by auto
  have dw: "dropWhile is_space (w @ r) = c # (cs @ r)" using w c by simp
  have r: "takeWhile ?n r = []" "dropWhile ?n r = r" using assms(3) by (cases r; simp)+
  have "takeWhile ?n (cs @ r) = cs" "dropWhile ?n (cs @ r) = r"
    using cs r by (simp_all add: takeWhile_append dropWhile_append)
  then show ?thesis using tokens_Cons_case[OF dw] w by simp
qed

lemma tokens_leading_space: "is_space c \<Longrightarrow> tokens (c # s) = tokens s"
  using tokens_dropWhile[of "c # s"] tokens_dropWhile[of s] by simp

lemma tokens_unwords: "words_ok ws \<Longrightarrow> tokens (unwords ws) = ws"
proof (induction ws rule: unwords.induct)
  case 1
  then show ?case by simp
next
  case (2 w)
  then show ?case using tokens_word[of w "[]"] by (simp add: words_ok_def)
next
  case (3 w v ws)
  have sp: "is_space CHR '' ''" by (simp add: is_space_def)
  have "tokens (w @ CHR '' '' # unwords (v # ws)) = w # tokens (CHR '' '' # unwords (v # ws))"
    using 3 sp by (intro tokens_word) (simp_all add: words_ok_def)
  also have "\<dots> = w # tokens (unwords (v # ws))"
    using sp by (simp add: tokens_leading_space)
  also have "\<dots> = w # v # ws" using 3 by (simp add: words_ok_def)
  finally show ?case by simp
qed

lemma tokens_ok: "words_ok (tokens s)"
proof (induction s rule: tokens.induct)
  case (1 s)
  show ?case
  proof (cases "dropWhile is_space s")
    case Nil
    then have "tokens s = []" by (rule tokens_Nil_case)
    then show ?thesis by (simp add: words_ok_def)
  next
    case (Cons c cs)
    let ?w = "takeWhile (\<lambda>x. \<not> is_space x) cs"
    let ?r = "dropWhile (\<lambda>x. \<not> is_space x) cs"
    have c: "\<not> is_space c"
      using Cons hd_dropWhile[of is_space s] by (simp del: dropWhile_eq_Nil_conv)
    have w: "\<forall>x\<in>set ?w. \<not> is_space x"
      using set_takeWhileD[of _ "\<lambda>x. \<not> is_space x" cs] by blast
    have ih: "words_ok (tokens ?r)" by (rule "1.IH"[OF Cons])
    have tk: "tokens s = (c # ?w) # tokens ?r" by (rule tokens_Cons_case[OF Cons])
    have ww: "\<forall>x\<in>set (c # ?w). \<not> is_space x"
      using c w by (metis set_ConsD)
    have "\<forall>v\<in>set ((c # ?w) # tokens ?r). v \<noteq> [] \<and> (\<forall>x\<in>set v. \<not> is_space x)"
      using ww ih[unfolded words_ok_def] by (metis list.distinct(1) set_ConsD)
    then show ?thesis
      unfolding tk words_ok_def .
  qed
qed

lemma py_upper_idem [simp]: "py_upper (py_upper s) = py_upper s"
  by (simp add: py_upper_def)

lemma tokens_py_upper: "tokens (py_upper s) = map py_upper (tokens s)"
proof (induction s rule: tokens.induct)
  case (1 s)
  have comp: "is_space \<circ> upper_char = is_space" "(\<lambda>x. \<not> is_space x) \<circ> upper_char = (\<lambda>x. \<not> is_space x)"
    by (auto simp: fun_eq_iff)
  show ?case
  proof (cases "dropWhile is_space s")
    case Nil
    then have "dropWhile is_space (py_upper s) = []"
      by (simp add: py_upper_def)
    then show ?thesis using Nil tokens_Nil_case[of s] tokens_Nil_case[of "py_upper s"] by simp
  next
    case (Cons c cs)
    have "dropWhile is_space (py_upper s) = py_upper (c # cs)"
      unfolding py_upper_def dropWhile_map comp Cons ..
    then have d: "dropWhile is_space (py_upper s) = upper_char c # py_upper cs"
      by (simp add: py_upper_def)
    show ?thesis
      using tokens_Cons_case[OF d] tokens_Cons_case[OF Cons] "1.IH"[OF Cons]
      by (simp add: py_upper_def dropWhile_map takeWhile_map comp)
  qed
qed

lemma py_upper_append: "py_upper (a @ b) = py_upper a @ py_upper b"
  by (simp add: py_upper_def)

lemma py_upper_Cons: "py_upper (c # s) = upper_char c # py_upper s"
  by (simp add: py_upper_def)

lemma unwords_py_upper: "unwords (map py_upper ws) = py_upper (unwords ws)"
  by (induction ws rule: unwords.induct) (simp_all add: py_upper_append py_upper_Cons, simp add: py_upper_def)

lemma words_ok_upper: "words_ok ws \<Longrightarrow> words_ok (map py_upper ws)"
  by (auto simp: words_ok_def py_upper_def)

lemma normal_text_idem: "normal_text u (normal_text u s) = normal_text u s"
proof (cases u)
  case False
  then show ?thesis
    by (simp add: normal_text_def strip_collapse_spec tokens_unwords tokens_ok)
next
  case True
  have "tokens (py_upper (unwords (tokens s))) = map py_upper (tokens s)"
    by (simp add: tokens_py_upper tokens_unwords tokens_ok)
  then show ?thesis using True
    by (simp add: normal_text_def strip_collapse_spec unwords_py_upper tokens_unwords tokens_ok)
qed

lemma cleanse_cell_idem: "cleanse_cell u (cleanse_cell u c) = cleanse_cell u c"
  by (cases c) (simp_all add: cleanse_cell_def normal_text_idem)

text \<open>
  Claim C1. For every column and every case-fold flag, \<open>cleanse_series\<close> returns (it
  raises nothing) a column of the same length, aligned cell by cell with its input: a
  missing cell stays missing and no present cell becomes missing, and a present cell
  becomes the text of its string representation with leading and trailing whitespace
  removed and every internal run of whitespace collapsed to one space (the words of the
  text joined by single spaces), upper-cased exactly when the flag is set.
\<close>

theorem cleanse_series_contract:
  "cleanse_series s case_fold = Inr (map (spec_cleanse_cell case_fold) s) \<and>
   length (map (spec_cleanse_cell case_fold) s) = length s \<and>
   (\<forall>c. (spec_cleanse_cell case_fold c = Missing) = (c = Missing))"
proof -
  have "cleanse_cell case_fold c = spec_cleanse_cell case_fold c" for c
    by (cases c)
       (simp_all add: cleanse_cell_def spec_cleanse_cell_def normal_text_def spec_normalise_def
          strip_collapse_spec)
  then have "cleanse_series s case_fold = Inr (map (spec_cleanse_cell case_fold) s)"
    by (simp add: cleanse_series_map)
  moreover have "(spec_cleanse_cell case_fold c = Missing) = (c = Missing)" for c
    by (cases c) (simp_all add: spec_cleanse_cell_def)
  ultimately show ?thesis by simp
qed

text \<open>
  Claim C6. Cleansing is idempotent: with the case-fold flag fixed, cleansing the
  cleansed column returns it unchanged.
\<close>

theorem cleanse_series_idempotent:
  "\<exists>once. cleanse_series x case_fold = Inr once \<and> cleanse_series once case_fold = Inr once"
  by (simp add: cleanse_series_map cleanse_cell_idem)

section \<open>Properties of the table operations\<close>

subsection \<open>Columns, rows and \<open>cleanse_df\<close>\<close>

lemma col_index_less: "c \<in> set xs \<Longrightarrow> col_index xs c < length xs"
  by (induction xs) auto

lemma col_index_nth: "c \<in> set xs \<Longrightarrow> xs ! col_index xs c = c"
  by (induction xs) auto

lemma col_index_append: "c \<in> set xs \<Longrightarrow> col_index (xs @ ys) c = col_index xs c"
  by (induction xs) auto

lemma col_index_append_notin:
  "c \<notin> set xs \<Longrightarrow> col_index (xs @ ys) c = length xs + col_index ys c"
  by (induction xs) auto

lemma col_index_inj:
  "c \<in> set xs \<Longrightarrow> col_index xs c = col_index xs d \<Longrightarrow> c = d"
  by (induction xs) (auto split: if_splits)

lemma zip_map_same: "map f (zip xs (map g xs)) = map (\<lambda>x. f (x, g x)) xs"
  by (induction xs) auto

lemma set_col_cleansed:
  "c \<in> set (columns df) \<Longrightarrow>
   set_col df c (map (cleanse_cell u) (get_col df c)) =
   df\<lparr>rows := map (\<lambda>r. r[col_index (columns df) c := cleanse_cell u (r ! col_index (columns df) c)])
                  (rows df)\<rparr>"
  by (simp add: set_col_def get_col_def zip_map_same map_map comp_def)

lemma cleanse_df_rows:
  "cleanse_df df cols u = Inr (df\<lparr>rows := map (cleanse_row (columns df) cols u) (rows df)\<rparr>)"
proof (induction cols arbitrary: df)
  case Nil
  then show ?case by (simp add: cleanse_row_def)
next
  case (Cons c cs)
  show ?case
  proof (cases "c \<in> set (columns df)")
    case True
    then show ?thesis
      by (simp add: cleanse_series_map set_col_cleansed Cons.IH cleanse_row_def comp_def)
  next
    case False
    then show ?thesis by (simp add: Cons.IH cleanse_row_def)
  qed
qed

lemma length_cleanse_row [simp]: "length (cleanse_row L cols u r) = length r"
  unfolding cleanse_row_def by (induction cols arbitrary: r) auto

lemma cleanse_row_nth_other:
  "n \<notin> col_index L ` (set cols \<inter> set L) \<Longrightarrow> cleanse_row L cols u r ! n = r ! n"
  unfolding cleanse_row_def by (induction cols arbitrary: r) auto

lemma cleanse_row_nth_cases:
  "cleanse_row L cols u r ! n = r ! n \<or> cleanse_row L cols u r ! n = cleanse_cell u (r ! n)"
  unfolding cleanse_row_def
proof (induction cols arbitrary: r)
  case Nil
  then show ?case by simp
next
  case (Cons c cs)
  let ?i = "col_index L c"
  show ?case
  proof (cases "c \<in> set L")
    case True
    let ?r = "r[?i := cleanse_cell u (r ! ?i)]"
    have "?r ! n = r ! n \<or> ?r ! n = cleanse_cell u (r ! n)"
      by (cases "n = ?i"; cases "?i < length r") (simp_all add: list_update_beyond not_less)
    then show ?thesis using Cons[of ?r] True by (auto simp: cleanse_cell_idem)
  next
    case False
    then show ?thesis using Cons[of r] by simp
  qed
qed

lemma cleanse_row_nth_col:
  assumes "c \<in> set cols" "c \<in> set L" "col_index L c < length r"
  shows "cleanse_row L cols u r ! col_index L c = cleanse_cell u (r ! col_index L c)"
  using assms unfolding cleanse_row_def
proof (induction cols arbitrary: r)
  case Nil
  then show ?case by simp
next
  case (Cons d ds)
  let ?i = "col_index L c"
  let ?j = "col_index L d"
  let ?f = "\<lambda>c r. if c \<in> set L then r[col_index L c := cleanse_cell u (r ! col_index L c)] else r"
  show ?case
  proof (cases "d = c")
    case True
    let ?r = "r[?i := cleanse_cell u (r ! ?i)]"
    have "fold ?f ds ?r ! ?i = ?r ! ?i \<or> fold ?f ds ?r ! ?i = cleanse_cell u (?r ! ?i)"
      using cleanse_row_nth_cases[of L ds u ?r ?i] by (simp add: cleanse_row_def)
    then show ?thesis using True Cons.prems by (auto simp: cleanse_cell_idem)
  next
    case False
    then have c: "c \<in> set ds" using Cons.prems by simp
    show ?thesis
    proof (cases "d \<in> set L")
      case True
      have ne: "?j \<noteq> ?i" using col_index_inj[of d L c] True False by auto
      let ?r = "r[?j := cleanse_cell u (r ! ?j)]"
      have "fold ?f ds ?r ! ?i = cleanse_cell u (?r ! ?i)"
        using Cons.IH[of ?r] c Cons.prems by simp
      then show ?thesis using True ne by simp
    next
      case False
      then show ?thesis using Cons.IH[of r] c Cons.prems by simp
    qed
  qed
qed

subsection \<open>The reshape\<close>

lemma boolean_index_map:
  "boolean_index df (map p (map f (rows df))) = df\<lparr>rows := filter (p \<circ> f) (rows df)\<rparr>"
proof -
  have "map fst (filter snd (zip xs (map p (map f xs)))) = filter (p \<circ> f) xs" for xs :: "row list"
    by (induction xs) auto
  then show ?thesis by (simp add: boolean_index_def)
qed

lemma filter_concat_map:
  "filter P (concat (map g vs)) = concat (map (\<lambda>v. filter P (g v)) vs)"
  by (induction vs) auto

lemma sum_count_swap:
  "sum_list (map (\<lambda>v. length (filter (\<lambda>r. P r v) rs)) vs) =
   sum_list (map (\<lambda>r. length (filter (\<lambda>v. P r v) vs)) rs)"
proof (induction vs)
  case Nil
  then show ?case by simp
next
  case (Cons v vs)
  have "sum_list (map (\<lambda>r. length (filter (\<lambda>v. P r v) (v # vs))) rs) =
        length (filter (\<lambda>r. P r v) rs) + sum_list (map (\<lambda>r. length (filter (\<lambda>v. P r v) vs)) rs)"
    by (induction rs) auto
  then show ?case using Cons by simp
qed

lemma pop_id_vars_returns:
  "distinct ks \<Longrightarrow> set ks \<subseteq> set L \<Longrightarrow> \<exists>r. pop_id_vars L ks = Inr r"
proof (induction ks arbitrary: L)
  case Nil
  then show ?case by simp
next
  case (Cons k ks)
  have "set ks \<subseteq> set (removeAll k L)" using Cons.prems by auto
  moreover have "distinct ks" using Cons.prems by simp
  ultimately have "\<exists>r. pop_id_vars (removeAll k L) ks = Inr r" by (rule Cons.IH[rotated])
  then show ?case using Cons.prems by simp
qed

lemma pop_id_vars_distinct:
  "pop_id_vars L ks = Inr r \<Longrightarrow> distinct ks \<and> set ks \<subseteq> set L"
proof (induction ks arbitrary: L)
  case Nil
  then show ?case by simp
next
  case (Cons k ks)
  have k: "k \<in> set L" and p: "pop_id_vars (removeAll k L) ks = Inr r"
    using Cons.prems by (auto split: if_splits)
  have "distinct ks \<and> set ks \<subseteq> set (removeAll k L)" using p by (rule Cons.IH)
  then show ?case using k by auto
qed

lemma length_remdups_append_ge:
  "distinct ks \<Longrightarrow> length ks \<le> length (remdups (ks @ vs))"
proof -
  assume "distinct ks"
  then have "length ks = card (set ks)" by (simp add: distinct_card)
  also have "\<dots> \<le> card (set (ks @ vs))" by (rule card_mono) auto
  also have "\<dots> = length (remdups (ks @ vs))" by (simp only: length_remdups_card_conv)
  finally show ?thesis .
qed

lemma melt_returns:
  assumes "melt df ks vs n x = Inr long"
  shows "x \<notin> set (columns df) \<and> distinct ks \<and> n \<notin> set ks"
proof -
  have x: "x \<notin> set (columns df)"
    using assms by (auto simp: melt_def split: if_splits)
  have f: "filter (\<lambda>c. c \<notin> set (columns df)) (ks @ vs) = []"
    using assms x by (auto simp: melt_def split: list.splits)
  obtain r where p: "pop_id_vars (remdups (ks @ vs)) ks = Inr r"
    using assms x f by (auto simp: melt_def Let_def split: if_splits sum.splits)
  have n: "n \<notin> set ks"
    using assms x f p by (auto simp: melt_def Let_def split: if_splits)
  show ?thesis using x n pop_id_vars_distinct[OF p] by simp
qed

lemma melt_closed:
  assumes "x \<notin> set (columns df)" and "set (ks @ vs) \<subseteq> set (columns df)"
      and "distinct ks" and "n \<notin> set ks"
  shows "melt df ks vs n x =
     Inr \<lparr>columns = ks @ [n, x],
          rows = concat (map (\<lambda>v. map (melt_row (columns df) ks v) (rows df)) vs)\<rparr>"
proof -
  have f: "filter (\<lambda>c. c \<notin> set (columns df)) (ks @ vs) = []"
    using assms(2) by (auto simp: filter_empty_conv)
  have t: "\<not> length (remdups (ks @ vs)) < length ks"
    using length_remdups_append_ge[OF assms(3), of vs] by simp
  obtain r where p: "pop_id_vars (remdups (ks @ vs)) ks = Inr r"
    using pop_id_vars_returns[OF assms(3), of "remdups (ks @ vs)"] by auto
  show ?thesis
    unfolding melt_def Let_def using assms(1,4) f t p by (simp del: filter_append)
qed

lemma reshape_returns:
  assumes "reshape df kf = Inr long"
  shows "''Value'' \<notin> set (columns df) \<and>
         distinct (filter (\<lambda>c. c \<in> set (columns df)) (key_fields_of kf)) \<and>
         ''Name'' \<notin> set (filter (\<lambda>c. c \<in> set (columns df)) (key_fields_of kf))"
proof -
  obtain m where "melt df (filter (\<lambda>c. c \<in> set (columns df)) (key_fields_of kf))
        (filter (\<lambda>c. c \<notin> set (filter (\<lambda>c. c \<in> set (columns df)) (key_fields_of kf))) (columns df))
        ''Name'' ''Value'' = Inr m"
    using assms by (auto simp: reshape_def Let_def split: sum.splits)
  then show ?thesis by (rule melt_returns)
qed

lemma reshape_closed:
  fixes df :: table and kf :: "string list option"
  defines "ks \<equiv> filter (\<lambda>c. c \<in> set (columns df)) (key_fields_of kf)"
  defines "vs \<equiv> filter (\<lambda>c. c \<notin> set ks) (columns df)"
  assumes nv: "''Value'' \<notin> set (columns df)" and dk: "distinct ks" and nk: "''Name'' \<notin> set ks"
  shows "reshape df kf =
     Inr \<lparr>columns = ks @ [''Name'', ''Value''],
          rows = concat (map (\<lambda>v. map (melt_row (columns df) ks v)
                                       (filter (\<lambda>r. notna (r ! col_index (columns df) v)) (rows df)))
                             vs)\<rparr>"
proof -
  let ?L = "columns df"
  have sub: "set (ks @ vs) \<subseteq> set ?L"
    by (auto simp: ks_def vs_def)
  let ?long = "\<lparr>columns = ks @ [''Name'', ''Value''],
                rows = concat (map (\<lambda>v. map (melt_row ?L ks v) (rows df)) vs)\<rparr>"
  have m: "melt df ks vs ''Name'' ''Value'' = Inr ?long"
    using nv sub dk nk by (rule melt_closed)
  have vk: "''Value'' \<notin> set ks" using nv by (auto simp: ks_def)
  have idx: "col_index (ks @ [''Name'', ''Value'']) ''Value'' = Suc (length ks)"
    using vk by (simp add: col_index_append_notin)
  have cell: "melt_row ?L ks v r ! Suc (length ks) = r ! col_index ?L v" for v r
    by (simp add: melt_row_def nth_append)
  have gc: "get_col ?long ''Value'' = map (\<lambda>x. x ! Suc (length ks)) (rows ?long)"
    by (simp add: get_col_def idx)
  have gi: "getitem ?long ''Value'' = Inr (map (\<lambda>x. x ! Suc (length ks)) (rows ?long))"
    using gc by (simp add: getitem_def)
  have bi: "boolean_index ?long (map notna (map (\<lambda>x. x ! Suc (length ks)) (rows ?long))) =
        ?long\<lparr>rows := filter (notna \<circ> (\<lambda>x. x ! Suc (length ks))) (rows ?long)\<rparr>"
    by (rule boolean_index_map)
  have fl: "filter (notna \<circ> (\<lambda>x. x ! Suc (length ks))) (rows ?long) =
        concat (map (\<lambda>v. map (melt_row ?L ks v)
                              (filter (\<lambda>r. notna (r ! col_index ?L v)) (rows df))) vs)"
    by (simp add: filter_concat_map filter_map comp_def cell)
  have "reshape df kf = Inr (?long\<lparr>rows := filter (notna \<circ> (\<lambda>x. x ! Suc (length ks))) (rows ?long)\<rparr>)"
    unfolding reshape_def Let_def ks_def[symmetric] vs_def[symmetric] m sum.case gi bi ..
  then show ?thesis using fl by simp
qed

lemma reshape_absent_keys:
  "reshape df (Some (filter (\<lambda>c. c \<in> set (columns df)) (key_fields_of kf))) = reshape df kf"
  by (simp add: reshape_def key_fields_of_def Let_def)

lemma reshape_Inr_D:
  assumes "reshape df kf = Inr long"
  shows "''Value'' \<notin> set (columns df)"
    and "long = \<lparr>columns = filter (\<lambda>c. c \<in> set (columns df)) (key_fields_of kf) @ [''Name'', ''Value''],
                 rows = concat (map (\<lambda>v. map (melt_row (columns df)
                                                  (filter (\<lambda>c. c \<in> set (columns df)) (key_fields_of kf)) v)
                                              (filter (\<lambda>r. notna (r ! col_index (columns df) v)) (rows df)))
                                    (filter (\<lambda>c. c \<notin> set (filter (\<lambda>c. c \<in> set (columns df)) (key_fields_of kf)))
                                            (columns df)))\<rparr>"
proof -
  note r = reshape_returns[OF assms]
  show "''Value'' \<notin> set (columns df)" using r by simp
  have "reshape df kf = Inr \<lparr>columns = filter (\<lambda>c. c \<in> set (columns df)) (key_fields_of kf) @ [''Name'', ''Value''],
                 rows = concat (map (\<lambda>v. map (melt_row (columns df)
                                                  (filter (\<lambda>c. c \<in> set (columns df)) (key_fields_of kf)) v)
                                              (filter (\<lambda>r. notna (r ! col_index (columns df) v)) (rows df)))
                                    (filter (\<lambda>c. c \<notin> set (filter (\<lambda>c. c \<in> set (columns df)) (key_fields_of kf)))
                                            (columns df)))\<rparr>"
    using r by (intro reshape_closed) simp_all
  then show "long = \<lparr>columns = filter (\<lambda>c. c \<in> set (columns df)) (key_fields_of kf) @ [''Name'', ''Value''],
                 rows = concat (map (\<lambda>v. map (melt_row (columns df)
                                                  (filter (\<lambda>c. c \<in> set (columns df)) (key_fields_of kf)) v)
                                              (filter (\<lambda>r. notna (r ! col_index (columns df) v)) (rows df)))
                                    (filter (\<lambda>c. c \<notin> set (filter (\<lambda>c. c \<in> set (columns df)) (key_fields_of kf)))
                                            (columns df)))\<rparr>"
    using assms by simp
qed

lemma prune_cols_subset: "set (columns (prune df d)) \<subseteq> set (columns df)"
  by (auto simp: prune_def drop_columns_def split: option.splits)

text \<open>
  Claim C2. Let the response table be pruned by any drop list and reshaped with any
  configured key-field list. The key fields used are the configured ones that the
  pruned table has: the reshape is the reshape with the absent ones left out of the
  configuration, and it returns a table whenever those present are distinct and are not
  \<open>Name\<close> and no column is labelled \<open>Value\<close>, whatever absent key fields are
  configured: an absent key field is no error. The value columns are all the other
  columns, and the long table holds one row for each pair of an input row and a value
  column whose cell is not missing: its row count is the number of non-missing cells
  over all (input row, value column) pairs.
\<close>

theorem reshape_row_count:
  assumes "wf_table responses_df"
      and "pruned = prune responses_df drop_from_responses"
      and "keys = filter (\<lambda>c. c \<in> set (columns pruned)) (key_fields_of responses_key_fields)"
      and "value_cols = filter (\<lambda>c. c \<notin> set keys) (columns pruned)"
  shows "reshape pruned responses_key_fields = reshape pruned (Some keys) \<and>
         (''Value'' \<notin> set (columns pruned) \<and> distinct keys \<and> ''Name'' \<notin> set keys \<longrightarrow>
            (\<exists>long_df. reshape pruned responses_key_fields = Inr long_df)) \<and>
         (\<forall>long_df. reshape pruned responses_key_fields = Inr long_df \<longrightarrow>
            columns long_df = keys @ [''Name'', ''Value''] \<and>
            rows long_df =
              concat (map (\<lambda>v. map (melt_row (columns pruned) keys v)
                                   (filter (\<lambda>r. notna (r ! col_index (columns pruned) v)) (rows pruned)))
                          value_cols) \<and>
            length (rows long_df) =
              sum_list (map (\<lambda>r. length (filter (\<lambda>c. notna (r ! col_index (columns pruned) c)) value_cols))
                            (rows pruned)))"
proof -
  let ?L = "columns pruned"
  let ?R = "concat (map (\<lambda>v. map (melt_row ?L keys v)
                                (filter (\<lambda>r. notna (r ! col_index ?L v)) (rows pruned)))
                       value_cols)"
  have same: "reshape pruned responses_key_fields = reshape pruned (Some keys)"
    unfolding assms(3) by (rule reshape_absent_keys[symmetric])
  have ret: "\<exists>long_df. reshape pruned responses_key_fields = Inr long_df"
    if "''Value'' \<notin> set ?L" "distinct keys" "''Name'' \<notin> set keys"
    using reshape_closed[of pruned responses_key_fields] that unfolding assms(3) by blast
  have len: "length ?R =
      sum_list (map (\<lambda>r. length (filter (\<lambda>c. notna (r ! col_index ?L c)) value_cols)) (rows pruned))"
  proof -
    have "length ?R =
        sum_list (map (\<lambda>v. length (filter (\<lambda>r. notna (r ! col_index ?L v)) (rows pruned))) value_cols)"
      by (simp add: length_concat comp_def)
    then show ?thesis
      using sum_count_swap[of "\<lambda>r v. notna (r ! col_index ?L v)" "rows pruned" value_cols] by simp
  qed
  have shape: "columns long_df = keys @ [''Name'', ''Value''] \<and> rows long_df = ?R \<and>
        length (rows long_df) =
          sum_list (map (\<lambda>r. length (filter (\<lambda>c. notna (r ! col_index ?L c)) value_cols)) (rows pruned))"
    if r: "reshape pruned responses_key_fields = Inr long_df" for long_df
  proof -
    have long: "long_df = \<lparr>columns = keys @ [''Name'', ''Value''], rows = ?R\<rparr>"
      unfolding assms(3,4) by (rule reshape_Inr_D(2)[OF r])
    show ?thesis using len by (simp add: long)
  qed
  show ?thesis using same ret shape by blast
qed

theorem reshape_row_count_witness:
  "wf_table sample_responses \<and>
   ''Value'' \<notin> set (columns (prune sample_responses (Some [''Status'', ''Term reason'']))) \<and>
   reshape (prune sample_responses (Some [''Status'', ''Term reason''])) None =
     reshape (prune sample_responses (Some [''Status'', ''Term reason'']))
       (Some [''Respondent'', ''End time (GMT)'']) \<and>
   reshape (prune sample_responses (Some [''Status'', ''Term reason''])) None = Inr sample_long \<and>
   sum_list (map (\<lambda>r. length (filter (\<lambda>c. notna (r ! col_index (columns (prune sample_responses (Some [''Status'', ''Term reason'']))) c))
                                    [''q1'', ''Q2'', ''Q9'']))
                 (rows (prune sample_responses (Some [''Status'', ''Term reason''])))) = 4"
proof -
  let ?p = "prune sample_responses (Some [''Status'', ''Term reason''])"
  have w: "wf_table sample_responses"
    by code_simp
  have k: "filter (\<lambda>c. c \<in> set (columns ?p)) (key_fields_of None) = [''Respondent'', ''End time (GMT)'']"
    by code_simp
  have v: "filter (\<lambda>c. c \<notin> set [''Respondent'', ''End time (GMT)'']) (columns ?p) = [''q1'', ''Q2'', ''Q9'']"
    by code_simp
  have n: "''Value'' \<notin> set (columns ?p)"
    by code_simp
  have d: "distinct [''Respondent'', ''End time (GMT)''] \<and> ''Name'' \<notin> set [''Respondent'', ''End time (GMT)'']"
    by simp
  note t = reshape_row_count[OF w refl k[symmetric] v[symmetric]]
  have same: "reshape ?p None = reshape ?p (Some [''Respondent'', ''End time (GMT)''])"
    using t by blast
  obtain long_df where r: "reshape ?p None = Inr long_df"
    using t n d by blast
  have l: "columns long_df = [''Respondent'', ''End time (GMT)''] @ [''Name'', ''Value'']"
    and rw: "rows long_df =
       concat (map (\<lambda>v. map (melt_row (columns ?p) [''Respondent'', ''End time (GMT)''] v)
                            (filter (\<lambda>r. notna (r ! col_index (columns ?p) v)) (rows ?p)))
                   [''q1'', ''Q2'', ''Q9''])"
    and len: "length (rows long_df) =
       sum_list (map (\<lambda>r. length (filter (\<lambda>c. notna (r ! col_index (columns ?p) c)) [''q1'', ''Q2'', ''Q9'']))
                     (rows ?p))"
    using t r by blast+
  have rows: "concat (map (\<lambda>v. map (melt_row (columns ?p) [''Respondent'', ''End time (GMT)''] v)
                            (filter (\<lambda>r. notna (r ! col_index (columns ?p) v)) (rows ?p)))
                   [''q1'', ''Q2'', ''Q9'']) = rows sample_long"
    by code_simp
  have long: "long_df = sample_long"
    using l rw rows by (simp add: sample_long_def)
  have four: "length (rows sample_long) = 4"
    by (simp add: sample_long_def)
  show ?thesis using w n same r len long four by simp
qed

subsection \<open>Merges and the two join stages\<close>

lemma suffix_labels_Nil [simp]: "suffix_labels own other key [] = own"
  by (simp add: suffix_labels_def map_idI)

lemma length_suffix_labels [simp]: "length (suffix_labels own other key sfx) = length own"
  by (simp add: suffix_labels_def)

lemma suffix_clash_from_same: "\<not> suffix_clash_from s s (zip xs xs)"
  by (induction xs arbitrary: s) auto

lemma suffix_clash_same [simp]: "\<not> suffix_clash own own"
  by (simp add: suffix_clash_def suffix_clash_from_same)

lemma suffix_clash_from_distinct:
  "set sn \<inter> snd ` set zs = {} \<Longrightarrow> distinct (map snd zs) \<Longrightarrow> \<not> suffix_clash_from so sn zs"
  by (induction zs arbitrary: so sn) auto

lemma suffix_clash_distinct:
  "distinct renamed \<Longrightarrow> length own = length renamed \<Longrightarrow> \<not> suffix_clash own renamed"
  unfolding suffix_clash_def by (rule suffix_clash_from_distinct) simp_all

lemma merge_closed:
  "merge left right key hw ([], sfx) =
     (if key \<notin> set (columns left) \<or> key \<notin> set (columns right) then Inl (KeyError key)
      else if suffix_clash (columns right) (suffix_labels (columns right) (columns left) key sfx)
      then Inl (MergeError key)
      else Inr (merged left right key hw sfx))"
  by (simp add: merge_def merged_def Let_def)

lemma rows_merged [simp]:
  "rows (merged left right key hw sfx) =
     concat (map (merge_rows hw (col_index (columns left) key) (col_index (columns right) key)
                    (length (columns right)) (rows right)) (rows left))"
  by (simp add: merged_def Let_def)

lemma columns_merged:
  "rows left \<noteq> [] \<Longrightarrow>
   columns (merged left right key hw sfx) =
     columns left @ remove_nth (col_index (columns right) key)
                      (suffix_labels (columns right) (columns left) key sfx)"
  by (simp add: merged_def Let_def)

lemma merge_rows_prefix:
  "o' \<in> set (merge_rows hw i j n rr l) \<Longrightarrow> take (length l) o' = l"
  by (auto simp: merge_rows_def Let_def split: if_splits)

lemma merge_rows_inner_length:
  "length (merge_rows HowInner i j n rr l) = length (filter (\<lambda>r. r ! j = l ! i) rr)"
  by (simp add: merge_rows_def Let_def)

lemma merge_rows_inner_key:
  "o' \<in> set (merge_rows HowInner i j n rr l) \<Longrightarrow> \<exists>r\<in>set rr. r ! j = l ! i"
  by (auto simp: merge_rows_def Let_def)

lemma merge_rows_left_nonempty: "merge_rows HowLeft i j n rr l \<noteq> []"
  by (simp add: merge_rows_def Let_def)

lemma merge_rows_left_unmatched:
  "filter (\<lambda>r. r ! j = l ! i) rr = [] \<Longrightarrow>
   merge_rows HowLeft i j n rr l = [l @ replicate (n - 1) Missing]"
  by (simp add: merge_rows_def Let_def del: filter_False)

lemma merge_rows_left_length:
  "length (merge_rows HowLeft i j n rr l) = max 1 (length (filter (\<lambda>r. r ! j = l ! i) rr))"
  by (cases "filter (\<lambda>r. r ! j = l ! i) rr") (simp_all add: merge_rows_def Let_def del: filter_False)

lemma filter_distinct_key_le1:
  "distinct (map f xs) \<Longrightarrow> length (filter (\<lambda>r. f r = k) xs) \<le> 1"
proof (induction xs)
  case Nil
  then show ?case by simp
next
  case (Cons x xs)
  show ?case
  proof (cases "f x = k")
    case True
    then have "filter (\<lambda>r. f r = k) xs = []"
      using Cons.prems by (force simp: filter_empty_conv image_iff)
    then show ?thesis using True by simp
  next
    case False
    then show ?thesis using Cons by simp
  qed
qed

lemma stage_a_closed:
  "stage_a long_df recon_df =
     merge (long_df\<lparr>rows := map (cleanse_row (columns long_df) [''Respondent'', ''Panel'', ''Name''] True)
                               (rows long_df)\<rparr>)
           (recon_df\<lparr>rows := map (cleanse_row (columns recon_df) recon_cols_to_clean True)
                                (rows recon_df)\<rparr>)
           ''Name'' HowInner ([], ''_recon'')"
  by (simp add: stage_a_def cleanse_df_rows)

lemma cleanse_numerical_closed:
  "cleanse_numerical numerical_df =
     Inr (if ''Value'' \<in> set (columns numerical_df)
          then numerical_df\<lparr>rows := map (cleanse_at (col_index (columns numerical_df) ''Value''))
                                       (rows numerical_df)\<rparr>
          else numerical_df)"
  by (simp add: cleanse_numerical_def cleanse_series_map set_col_cleansed cleanse_at_def[abs_def])

lemma cleanse_joined_closed:
  "cleanse_joined joined =
     (if ''Value'' \<in> set (columns joined)
      then Inr (joined\<lparr>rows := map (cleanse_at (col_index (columns joined) ''Value'')) (rows joined)\<rparr>)
      else Inl (KeyError ''Value''))"
  by (simp add: cleanse_joined_def getitem_def cleanse_series_map set_col_cleansed cleanse_at_def[abs_def])

lemma stage_b_closed:
  "stage_b joined numerical_df =
     (if ''Value'' \<notin> set (columns joined) then Inl (KeyError ''Value'')
      else merge (joined\<lparr>rows := map (cleanse_at (col_index (columns joined) ''Value'')) (rows joined)\<rparr>)
                 (if ''Value'' \<in> set (columns numerical_df)
                  then numerical_df\<lparr>rows := map (cleanse_at (col_index (columns numerical_df) ''Value''))
                                               (rows numerical_df)\<rparr>
                  else numerical_df)
                 ''Value'' HowLeft ([], ''_num''))"
  by (simp add: stage_b_def cleanse_numerical_closed cleanse_joined_closed)

lemma wf_table_rowD: "wf_table df \<Longrightarrow> r \<in> set (rows df) \<Longrightarrow> length r = length (columns df)"
  by (simp add: wf_table_def list_all_iff)

lemma name_in_recon_cols: "''Name'' \<in> set recon_cols_to_clean"
  by (simp add: recon_cols_to_clean_def)

lemma length_concat_ge:
  "(\<And>g. g \<in> set gs \<Longrightarrow> g \<noteq> []) \<Longrightarrow> length gs \<le> length (concat gs)"
proof (induction gs)
  case Nil
  then show ?case by simp
next
  case (Cons g gs)
  have "g \<noteq> []" using Cons.prems by simp
  then have "1 \<le> length g" by (cases g) simp_all
  moreover have "length gs \<le> length (concat gs)" using Cons by simp
  ultimately show ?case by simp
qed

lemma length_concat_eq:
  "(\<And>g. g \<in> set gs \<Longrightarrow> length g = 1) \<Longrightarrow> length (concat gs) = length gs"
  by (induction gs) simp_all

text \<open>
  Claim C3. For every (well-formed) long-form table and metadata table on which Stage A
  returns a table: the \<open>Name\<close> of every output row is the cleansed \<open>Name\<close> of some
  metadata row, so no output row has a \<open>Name\<close> absent from the cleansed metadata names;
  and the output consists of one group of rows per long-form row, in order, the group of
  a long-form row holding one row per metadata row whose cleansed \<open>Name\<close> equals the
  row's cleansed \<open>Name\<close> (none when nothing matches: the row is dropped; \<open>k\<close> when \<open>k\<close>
  rows match), each of them the cleansed long-form row followed by metadata cells.
\<close>

theorem stage_a_inner_join:
  assumes ok: "stage_a long_df recon_df = Inr joined"
      and wl: "wf_table long_df" and wr: "wf_table recon_df"
      and i: "i = col_index (columns long_df) ''Name''"
      and j: "j = col_index (columns recon_df) ''Name''"
  shows "(\<forall>row\<in>set (rows joined).
            row ! col_index (columns joined) ''Name''
              \<in> set (map (cleanse_cell True) (get_col recon_df ''Name''))) \<and>
         (\<exists>groups. rows joined = concat groups \<and> length groups = length (rows long_df) \<and>
            (\<forall>n<length (rows long_df).
               length (groups ! n) =
                 length (filter (\<lambda>m. cleanse_cell True (m ! j) = cleanse_cell True (rows long_df ! n ! i))
                                (rows recon_df)) \<and>
               (\<forall>row\<in>set (groups ! n).
                  take (length (columns long_df)) row =
                    cleanse_row (columns long_df) [''Respondent'', ''Panel'', ''Name''] True
                      (rows long_df ! n))))"
proof -
  let ?cl = "cleanse_row (columns long_df) [''Respondent'', ''Panel'', ''Name''] True"
  let ?cr = "cleanse_row (columns recon_df) recon_cols_to_clean True"
  let ?long = "long_df\<lparr>rows := map ?cl (rows long_df)\<rparr>"
  let ?recon = "recon_df\<lparr>rows := map ?cr (rows recon_df)\<rparr>"
  let ?n = "length (columns recon_df)"
  have m: "merge ?long ?recon ''Name'' HowInner ([], ''_recon'') = Inr joined"
    using ok by (simp add: stage_a_closed)
  have nl: "''Name'' \<in> set (columns long_df)" and nr: "''Name'' \<in> set (columns recon_df)"
    using m by (auto simp: merge_closed split: if_splits)
  have jn: "joined = merged ?long ?recon ''Name'' HowInner ''_recon''"
    using m by (auto simp: merge_closed split: if_splits)
  let ?groups = "map (merge_rows HowInner i j ?n (map ?cr (rows recon_df))) (map ?cl (rows long_df))"
  have rows: "rows joined = concat ?groups"
    by (simp add: jn i j)
  have il: "i < length (columns long_df)" using nl i by (simp add: col_index_less)
  have jl: "j < length (columns recon_df)" using nr j by (simp add: col_index_less)
  have keyl: "?cl l ! i = cleanse_cell True (l ! i)" if "l \<in> set (rows long_df)" for l
    using cleanse_row_nth_col[of "''Name''" "[''Respondent'', ''Panel'', ''Name'']" "columns long_df" l True]
      nl il wf_table_rowD[OF wl that] by (simp add: i)
  have keyr: "?cr m ! j = cleanse_cell True (m ! j)" if "m \<in> set (rows recon_df)" for m
    using cleanse_row_nth_col[of "''Name''" recon_cols_to_clean "columns recon_df" m True]
      nr jl wf_table_rowD[OF wr that] name_in_recon_cols by (simp add: j)
  have cnt: "length (merge_rows HowInner i j ?n (map ?cr (rows recon_df)) (?cl l)) =
             length (filter (\<lambda>m. cleanse_cell True (m ! j) = cleanse_cell True (l ! i)) (rows recon_df))"
    if "l \<in> set (rows long_df)" for l
  proof -
    have "filter ((\<lambda>r. r ! j = ?cl l ! i) \<circ> ?cr) (rows recon_df) =
          filter (\<lambda>m. cleanse_cell True (m ! j) = cleanse_cell True (l ! i)) (rows recon_df)"
      by (rule filter_cong) (simp_all add: keyr keyl[OF that])
    then show ?thesis
      by (simp add: merge_rows_inner_length filter_map)
  qed
  have grp: "length (?groups ! n) =
               length (filter (\<lambda>m. cleanse_cell True (m ! j) = cleanse_cell True (rows long_df ! n ! i))
                              (rows recon_df)) \<and>
             (\<forall>row\<in>set (?groups ! n). take (length (columns long_df)) row = ?cl (rows long_df ! n))"
    if n: "n < length (rows long_df)" for n
  proof -
    let ?l = "rows long_df ! n"
    have mem: "?l \<in> set (rows long_df)" using n by simp
    have g: "?groups ! n = merge_rows HowInner i j ?n (map ?cr (rows recon_df)) (?cl ?l)"
      using n by simp
    have len: "length (?cl ?l) = length (columns long_df)"
      using wf_table_rowD[OF wl mem] by simp
    show ?thesis
      unfolding g using cnt[OF mem] merge_rows_prefix[of _ HowInner i j ?n "map ?cr (rows recon_df)" "?cl ?l"] len
      by auto
  qed
  have first: "row ! col_index (columns joined) ''Name'' \<in> set (map (cleanse_cell True) (get_col recon_df ''Name''))"
    if row: "row \<in> set (rows joined)" for row
  proof -
    obtain l where l: "l \<in> set (rows long_df)"
      and rw: "row \<in> set (merge_rows HowInner i j ?n (map ?cr (rows recon_df)) (?cl l))"
      using row unfolding rows by auto
    have ne: "rows ?long \<noteq> []" using l by auto
    have cols: "columns joined = columns long_df @
        remove_nth (col_index (columns recon_df) ''Name'')
          (suffix_labels (columns recon_df) (columns long_df) ''Name'' ''_recon'')"
      unfolding jn using columns_merged[OF ne, of ?recon "''Name''" HowInner "''_recon''"] by simp
    have ci: "col_index (columns joined) ''Name'' = i"
      unfolding cols i using nl by (simp add: col_index_append)
    have pre: "take (length (?cl l)) row = ?cl l" using rw by (rule merge_rows_prefix)
    have len: "length (?cl l) = length (columns long_df)"
      using wf_table_rowD[OF wl l] by simp
    have "row ! i = take (length (?cl l)) row ! i" using il len by simp
    then have ri: "row ! i = cleanse_cell True (l ! i)" using pre keyl[OF l] by simp
    obtain r where r: "r \<in> set (map ?cr (rows recon_df))" and rk: "r ! j = ?cl l ! i"
      using merge_rows_inner_key[OF rw] by auto
    obtain m where m: "m \<in> set (rows recon_df)" and rm: "r = ?cr m" using r by auto
    have "row ! i = cleanse_cell True (m ! j)"
      using ri rk rm keyr[OF m] keyl[OF l] by simp
    moreover have "cleanse_cell True (m ! j) \<in> set (map (cleanse_cell True) (get_col recon_df ''Name''))"
      using m by (simp add: get_col_def j image_iff) blast
    ultimately show ?thesis using ci by simp
  qed
  have "\<exists>groups. rows joined = concat groups \<and> length groups = length (rows long_df) \<and>
            (\<forall>n<length (rows long_df).
               length (groups ! n) =
                 length (filter (\<lambda>m. cleanse_cell True (m ! j) = cleanse_cell True (rows long_df ! n ! i))
                                (rows recon_df)) \<and>
               (\<forall>row\<in>set (groups ! n). take (length (columns long_df)) row = ?cl (rows long_df ! n)))"
    using rows grp by (intro exI[of _ ?groups]) simp
  then show ?thesis using first by blast
qed

theorem stage_a_inner_join_witness:
  "stage_a sample_long sample_recon = Inr sample_joined \<and>
   wf_table sample_long \<and> wf_table sample_recon \<and>
   (\<exists>groups. rows sample_joined = concat groups \<and> length groups = length (rows sample_long))"
proof -
  have h: "stage_a sample_long sample_recon = Inr sample_joined" by code_simp
  have w1: "wf_table sample_long" by code_simp
  have w2: "wf_table sample_recon" by code_simp
  from stage_a_inner_join[OF h w1 w2 refl refl]
  have "\<exists>groups. rows sample_joined = concat groups \<and> length groups = length (rows sample_long)"
    by blast
  then show ?thesis using h w1 w2 by blast
qed

lemma cleanse_at_nth: "i < length r \<Longrightarrow> cleanse_at i r ! i = cleanse_cell True (r ! i)"
  by (simp add: cleanse_at_def)

lemma length_cleanse_at [simp]: "length (cleanse_at i r) = length r"
  by (simp add: cleanse_at_def)

text \<open>
  Claim C4. For every (well-formed) Stage-A table and numeric table on which Stage B
  returns a table: the output has at least as many rows as the Stage-A table, and
  exactly as many when the cleansed values of the numeric table's \<open>Value\<close> column are
  distinct; the output consists of one non-empty group of rows per Stage-A row, in order,
  each row of the group being the Stage-A row (its \<open>Value\<close> cleansed) followed by numeric
  cells; and a row whose cleansed \<open>Value\<close> matches no numeric row is kept once, with
  missing cells in every numeric column.
\<close>

theorem stage_b_left_join:
  assumes ok: "stage_b joined numerical_df = Inr out"
      and wj: "wf_table joined" and wn: "wf_table numerical_df"
      and i: "i = col_index (columns joined) ''Value''"
      and j: "j = col_index (columns numerical_df) ''Value''"
  shows "length (rows joined) \<le> length (rows out) \<and>
         (distinct (map (cleanse_cell True) (get_col numerical_df ''Value''))
            \<longrightarrow> length (rows out) = length (rows joined)) \<and>
         (\<exists>groups. rows out = concat groups \<and> length groups = length (rows joined) \<and>
            (\<forall>n<length (rows joined).
               groups ! n \<noteq> [] \<and>
               (\<forall>row\<in>set (groups ! n).
                  take (length (columns joined)) row = cleanse_at i (rows joined ! n)) \<and>
               ((\<forall>m\<in>set (rows numerical_df).
                    cleanse_cell True (m ! j) \<noteq> cleanse_cell True (rows joined ! n ! i))
                  \<longrightarrow> groups ! n =
                        [cleanse_at i (rows joined ! n)
                           @ replicate (length (columns numerical_df) - 1) Missing])))"
proof -
  have vj: "''Value'' \<in> set (columns joined)"
    using ok by (auto simp: stage_b_closed split: if_splits)
  let ?joined = "joined\<lparr>rows := map (cleanse_at i) (rows joined)\<rparr>"
  let ?num0 = "if ''Value'' \<in> set (columns numerical_df)
               then numerical_df\<lparr>rows := map (cleanse_at j) (rows numerical_df)\<rparr>
               else numerical_df"
  have m0: "merge ?joined ?num0 ''Value'' HowLeft ([], ''_num'') = Inr out"
    using ok vj by (simp add: stage_b_closed i j split del: if_split cong: if_cong)
  have vn: "''Value'' \<in> set (columns numerical_df)"
    using m0 by (auto simp: merge_closed split: if_splits)
  let ?num = "numerical_df\<lparr>rows := map (cleanse_at j) (rows numerical_df)\<rparr>"
  have m: "merge ?joined ?num ''Value'' HowLeft ([], ''_num'') = Inr out"
    using m0 vn by simp
  have out: "out = merged ?joined ?num ''Value'' HowLeft ''_num''"
    using m by (auto simp: merge_closed split: if_splits)
  let ?n = "length (columns numerical_df)"
  let ?R = "map (cleanse_at j) (rows numerical_df)"
  let ?groups = "map (merge_rows HowLeft i j ?n ?R) (map (cleanse_at i) (rows joined))"
  have rows: "rows out = concat ?groups" by (simp add: out i j)
  have il: "i < length (columns joined)" using vj i by (simp add: col_index_less)
  have jl: "j < length (columns numerical_df)" using vn j by (simp add: col_index_less)
  have keyl: "cleanse_at i l ! i = cleanse_cell True (l ! i)" if "l \<in> set (rows joined)" for l
    using il wf_table_rowD[OF wj that] by (simp add: cleanse_at_nth)
  have keyr: "cleanse_at j m ! j = cleanse_cell True (m ! j)" if "m \<in> set (rows numerical_df)" for m
    using jl wf_table_rowD[OF wn that] by (simp add: cleanse_at_nth)
  have ne: "g \<noteq> []" if "g \<in> set ?groups" for g
    using that by (auto simp: merge_rows_left_nonempty)
  have ge: "length (rows joined) \<le> length (rows out)"
    unfolding rows using length_concat_ge[of ?groups] ne by simp
  have eq: "length (rows out) = length (rows joined)"
    if d: "distinct (map (cleanse_cell True) (get_col numerical_df ''Value''))"
  proof -
    have "map (\<lambda>r. r ! j) ?R = map (cleanse_cell True) (get_col numerical_df ''Value'')"
      by (simp add: get_col_def j[symmetric] keyr)
    then have dk: "distinct (map (\<lambda>r. r ! j) ?R)" using d by simp
    have "length g = 1" if gm: "g \<in> set ?groups" for g
    proof -
      from gm obtain l where g: "g = merge_rows HowLeft i j ?n ?R l"
        by (auto simp: image_iff)
      have "length (filter (\<lambda>r. r ! j = l ! i) ?R) \<le> 1"
        using dk by (rule filter_distinct_key_le1)
      then show ?thesis unfolding g merge_rows_left_length by simp
    qed
    then have "length (concat ?groups) = length ?groups" by (rule length_concat_eq)
    then show ?thesis unfolding rows by simp
  qed
  have grp: "?groups ! n \<noteq> [] \<and>
             (\<forall>row\<in>set (?groups ! n). take (length (columns joined)) row = cleanse_at i (rows joined ! n)) \<and>
             ((\<forall>m\<in>set (rows numerical_df).
                  cleanse_cell True (m ! j) \<noteq> cleanse_cell True (rows joined ! n ! i))
               \<longrightarrow> ?groups ! n = [cleanse_at i (rows joined ! n) @ replicate (?n - 1) Missing])"
    if n: "n < length (rows joined)" for n
  proof -
    let ?l = "rows joined ! n"
    have mem: "?l \<in> set (rows joined)" using n by simp
    have g: "?groups ! n = merge_rows HowLeft i j ?n ?R (cleanse_at i ?l)" using n by simp
    have len: "length (cleanse_at i ?l) = length (columns joined)"
      using wf_table_rowD[OF wj mem] by simp
    have a: "?groups ! n \<noteq> []" unfolding g by (rule merge_rows_left_nonempty)
    have b: "\<forall>row\<in>set (?groups ! n). take (length (columns joined)) row = cleanse_at i ?l"
      unfolding g using merge_rows_prefix[of _ HowLeft i j ?n ?R "cleanse_at i ?l"] len by auto
    have c: "?groups ! n = [cleanse_at i ?l @ replicate (?n - 1) Missing]"
      if un: "\<forall>m\<in>set (rows numerical_df). cleanse_cell True (m ! j) \<noteq> cleanse_cell True (?l ! i)"
    proof -
      have "filter (\<lambda>r. r ! j = cleanse_at i ?l ! i) ?R = []"
        using un keyr keyl[OF mem] by (auto simp: filter_empty_conv)
      then show ?thesis unfolding g by (rule merge_rows_left_unmatched)
    qed
    show ?thesis using a b c by blast
  qed
  have "\<exists>groups. rows out = concat groups \<and> length groups = length (rows joined) \<and>
            (\<forall>n<length (rows joined).
               groups ! n \<noteq> [] \<and>
               (\<forall>row\<in>set (groups ! n).
                  take (length (columns joined)) row = cleanse_at i (rows joined ! n)) \<and>
               ((\<forall>m\<in>set (rows numerical_df).
                    cleanse_cell True (m ! j) \<noteq> cleanse_cell True (rows joined ! n ! i))
                  \<longrightarrow> groups ! n =
                        [cleanse_at i (rows joined ! n) @ replicate (?n - 1) Missing]))"
    using rows grp by (intro exI[of _ ?groups]) simp
  then show ?thesis using ge eq by blast
qed

theorem stage_b_left_join_witness:
  "stage_b sample_joined sample_numerical = Inr sample_out \<and>
   stage_b sample_joined scenario_numerical = Inr sample_out_distinct \<and>
   wf_table sample_joined \<and> wf_table sample_numerical \<and> wf_table scenario_numerical \<and>
   distinct (map (cleanse_cell True) (get_col scenario_numerical ''Value'')) \<and>
   length (rows sample_joined) \<le> length (rows sample_out) \<and>
   length (rows sample_out_distinct) = length (rows sample_joined)"
proof -
  have h1: "stage_b sample_joined sample_numerical = Inr sample_out" by code_simp
  have h2: "stage_b sample_joined scenario_numerical = Inr sample_out_distinct" by code_simp
  have w: "wf_table sample_joined" "wf_table sample_numerical" "wf_table scenario_numerical"
    by code_simp+
  have d: "distinct (map (cleanse_cell True) (get_col scenario_numerical ''Value''))"
    by code_simp
  from stage_b_left_join[OF h1 w(1) w(2) refl refl]
  have a: "length (rows sample_joined) \<le> length (rows sample_out)" by blast
  from stage_b_left_join[OF h2 w(1) w(3) refl refl] d
  have b: "length (rows sample_out_distinct) = length (rows sample_joined)" by blast
  show ?thesis using h1 h2 w d a b by blast
qed

section \<open>Properties of the pipeline\<close>

subsection \<open>The rows of the output\<close>

lemma merge_Inr_D:
  assumes "merge left right key hw ([], sfx) = Inr out"
  shows "key \<in> set (columns left)" "key \<in> set (columns right)"
        "out = merged left right key hw sfx"
  using assms by (auto simp: merge_closed split: if_splits)

lemma merge_rows_shape:
  "row \<in> set (merge_rows hw i j n rr l) \<Longrightarrow> \<exists>rest. row = l @ rest"
  by (auto simp: merge_rows_def Let_def split: if_splits)

lemma length_melt_row [simp]: "length (melt_row L ks v r) = length ks + 2"
  by (simp add: melt_row_def)

lemma melt_row_key:
  "p < length ks \<Longrightarrow> melt_row L ks v r ! p = r ! col_index L (ks ! p)"
  by (simp add: melt_row_def nth_append)

lemma melt_row_name: "melt_row L ks v r ! length ks = Text v"
  by (simp add: melt_row_def nth_append)

lemma melt_row_cell: "melt_row L ks v r ! Suc (length ks) = r ! col_index L v"
  by (simp add: melt_row_def nth_append)

text \<open>The shape of every row of the pipeline's output.\<close>

lemma pipeline_rows:
  assumes run: "build_qc_output responses_df recon_df numerical_df drop_from_responses
                  responses_key_fields recon_sheet_expected = Inr out"
      and pruned: "pruned = prune responses_df drop_from_responses"
      and keys: "keys = filter (\<lambda>c. c \<in> set (columns pruned)) (key_fields_of responses_key_fields)"
      and vcols: "value_cols = filter (\<lambda>c. c \<notin> set keys) (columns pruned)"
      and row: "row \<in> set (rows out)"
  shows "\<exists>r\<in>set (rows pruned). \<exists>v\<in>set value_cols. \<exists>rest1 rest2.
           notna (r ! col_index (columns pruned) v) \<and>
           row = cleanse_at (Suc (length keys))
                   (cleanse_row (keys @ [''Name'', ''Value'']) [''Respondent'', ''Panel'', ''Name''] True
                      (melt_row (columns pruned) keys v r) @ rest1) @ rest2"
    and "\<exists>more. columns out = keys @ [''Name'', ''Value''] @ more"
    and "''Value'' \<notin> set keys"
proof -
  let ?L = "columns pruned"
  let ?LL = "keys @ [''Name'', ''Value'']"
  obtain long_df joined where
    rs: "reshape pruned responses_key_fields = Inr long_df" and
    sa: "stage_a long_df recon_df = Inr joined" and
    sb: "stage_b joined numerical_df = Inr out"
    using run unfolding build_qc_output_def pruned by (auto split: sum.splits)
  have nv: "''Value'' \<notin> set ?L"
    using rs by (rule reshape_Inr_D(1))
  show vk: "''Value'' \<notin> set keys" using nv by (auto simp: keys)
  let ?R = "concat (map (\<lambda>v. map (melt_row ?L keys v)
                                (filter (\<lambda>r. notna (r ! col_index ?L v)) (rows pruned)))
                       value_cols)"
  have long: "long_df = \<lparr>columns = ?LL, rows = ?R\<rparr>"
    unfolding keys vcols by (rule reshape_Inr_D(2)[OF rs])
  let ?cl = "cleanse_row ?LL [''Respondent'', ''Panel'', ''Name''] True"
  let ?long = "long_df\<lparr>rows := map ?cl ?R\<rparr>"
  let ?recon = "recon_df\<lparr>rows := map (cleanse_row (columns recon_df) recon_cols_to_clean True)
                                (rows recon_df)\<rparr>"
  have ma: "merge ?long ?recon ''Name'' HowInner ([], ''_recon'') = Inr joined"
    using sa by (simp add: stage_a_closed long)
  have joined: "joined = merged ?long ?recon ''Name'' HowInner ''_recon''"
    by (rule merge_Inr_D(3)[OF ma])
  have vj: "''Value'' \<in> set (columns joined)"
    using sb by (auto simp: stage_b_closed split: if_splits)
  let ?iv = "col_index (columns joined) ''Value''"
  let ?joined = "joined\<lparr>rows := map (cleanse_at ?iv) (rows joined)\<rparr>"
  obtain num where mb: "merge ?joined num ''Value'' HowLeft ([], ''_num'') = Inr out"
    using sb vj by (simp add: stage_b_closed split del: if_split)
  have out: "out = merged ?joined num ''Value'' HowLeft ''_num''"
    by (rule merge_Inr_D(3)[OF mb])
  obtain jr where jr: "jr \<in> set (rows joined)"
    and rw: "row \<in> set (merge_rows HowLeft ?iv (col_index (columns num) ''Value'')
                          (length (columns num)) (rows num) (cleanse_at ?iv jr))"
    using row unfolding out by auto
  obtain rest2 where r2: "row = cleanse_at ?iv jr @ rest2"
    using merge_rows_shape[OF rw] by blast
  obtain l where l: "l \<in> set ?R"
    and jw: "jr \<in> set (merge_rows HowInner (col_index ?LL ''Name'')
                         (col_index (columns recon_df) ''Name'') (length (columns recon_df))
                         (rows ?recon) (?cl l))"
    using jr unfolding joined by (auto simp: long)
  obtain rest1 where r1: "jr = ?cl l @ rest1"
    using merge_rows_shape[OF jw] by blast
  obtain v r where v: "v \<in> set value_cols" and r: "r \<in> set (rows pruned)"
    and nn: "notna (r ! col_index ?L v)" and lm: "l = melt_row ?L keys v r"
    using l by auto
  have "?R \<noteq> []" using l by (metis empty_iff list.set(1))
  then have ne: "rows ?long \<noteq> []" by (simp del: concat_eq_Nil_conv)
  have cj: "columns joined = ?LL @ remove_nth (col_index (columns recon_df) ''Name'')
              (suffix_labels (columns recon_df) ?LL ''Name'' ''_recon'')"
    unfolding joined using columns_merged[OF ne, of ?recon "''Name''" HowInner "''_recon''"]
    by (simp add: long)
  have iv: "?iv = Suc (length keys)"
    unfolding cj using vk by (simp add: col_index_append col_index_append_notin)
  have "rows joined \<noteq> []" using jr by (metis empty_iff list.set(1))
  then have nej: "rows ?joined \<noteq> []" by simp
  have co: "columns out = columns joined @ remove_nth (col_index (columns num) ''Value'')
              (suffix_labels (columns num) (columns joined) ''Value'' ''_num'')"
    unfolding out using columns_merged[OF nej, of num "''Value''" HowLeft "''_num''"] by simp
  show "\<exists>more. columns out = keys @ [''Name'', ''Value''] @ more"
    unfolding co cj by simp
  have "row = cleanse_at (Suc (length keys)) (?cl (melt_row ?L keys v r) @ rest1) @ rest2"
    using r2 r1 lm iv by simp
  then show "\<exists>r\<in>set (rows pruned). \<exists>v\<in>set value_cols. \<exists>rest1 rest2.
           notna (r ! col_index (columns pruned) v) \<and>
           row = cleanse_at (Suc (length keys))
                   (cleanse_row (keys @ [''Name'', ''Value'']) [''Respondent'', ''Panel'', ''Name''] True
                      (melt_row (columns pruned) keys v r) @ rest1) @ rest2"
    using r v nn by blast
qed

lemma cleanse_df_frame:
  assumes "k \<in> set (columns df)" "k \<notin> set cols"
  shows "\<exists>df'. cleanse_df df cols u = Inr df' \<and> columns df' = columns df \<and>
               get_col df' k = get_col df k"
proof -
  let ?L = "columns df"
  have "col_index ?L k \<notin> col_index ?L ` (set cols \<inter> set ?L)"
  proof
    assume "col_index ?L k \<in> col_index ?L ` (set cols \<inter> set ?L)"
    then obtain c where c: "c \<in> set cols" "c \<in> set ?L" "col_index ?L k = col_index ?L c" by auto
    then have "k = c" using col_index_inj[OF assms(1), of c] by simp
    then show False using assms(2) c(1) by simp
  qed
  then have "cleanse_row ?L cols u r ! col_index ?L k = r ! col_index ?L k" for r
    by (rule cleanse_row_nth_other)
  then show ?thesis by (simp add: cleanse_df_rows get_col_def)
qed

lemma cleanse_cell_notna: "notna c \<Longrightarrow> cleanse_cell u c \<noteq> Missing"
  by (cases c) (simp_all add: cleanse_cell_def notna_def)

lemma pipeline_cells:
  assumes run: "build_qc_output responses_df recon_df numerical_df drop_from_responses
                  responses_key_fields recon_sheet_expected = Inr out"
      and pruned: "pruned = prune responses_df drop_from_responses"
      and keys: "keys = filter (\<lambda>c. c \<in> set (columns pruned)) (key_fields_of responses_key_fields)"
      and vcols: "value_cols = filter (\<lambda>c. c \<notin> set keys) (columns pruned)"
      and row: "row \<in> set (rows out)"
  shows "\<exists>r\<in>set (rows pruned). \<exists>v\<in>set value_cols.
           notna (r ! col_index (columns pruned) v) \<and>
           (\<forall>k\<in>set keys. k \<notin> {''Respondent'', ''Panel'', ''Name''} \<longrightarrow>
              row ! col_index (columns out) k = r ! col_index (columns pruned) k) \<and>
           row ! col_index (columns out) ''Value'' = cleanse_cell True (r ! col_index (columns pruned) v)"
proof -
  let ?L = "columns pruned"
  let ?LL = "keys @ [''Name'', ''Value'']"
  let ?C = "[''Respondent'', ''Panel'', ''Name'']"
  let ?iv = "Suc (length keys)"
  obtain r v rest1 rest2 where r: "r \<in> set (rows pruned)" and v: "v \<in> set value_cols"
    and nn: "notna (r ! col_index ?L v)"
    and shape: "row = cleanse_at ?iv (cleanse_row ?LL ?C True (melt_row ?L keys v r) @ rest1) @ rest2"
    using pipeline_rows(1)[OF run pruned keys vcols row] by blast
  obtain more where cols0: "columns out = keys @ [''Name'', ''Value''] @ more"
    using pipeline_rows(2)[OF run pruned keys vcols row] by blast
  have cols: "columns out = ?LL @ more" using cols0 by simp
  have vk: "''Value'' \<notin> set keys" by (rule pipeline_rows(3)[OF run pruned keys vcols row])
  let ?l = "melt_row ?L keys v r"
  let ?l' = "cleanse_row ?LL ?C True ?l"
  have len: "length ?l' = length keys + 2" by simp
  have ivLL: "col_index ?LL ''Value'' = ?iv"
    using vk by (simp add: col_index_append_notin)
  have other: "?l' ! p = ?l ! p" if "p = col_index ?LL k" "k \<in> set ?LL" "k \<notin> set ?C" for p k
  proof -
    have "p \<notin> col_index ?LL ` (set ?C \<inter> set ?LL)"
    proof
      assume "p \<in> col_index ?LL ` (set ?C \<inter> set ?LL)"
      then obtain c where c: "c \<in> set ?C" "c \<in> set ?LL" "p = col_index ?LL c" by blast
      then have "k = c" using col_index_inj[OF that(2), of c] that(1) by simp
      then show False using that(3) c(1) by simp
    qed
    then show ?thesis by (rule cleanse_row_nth_other)
  qed
  have pre: "row ! p = (if p = ?iv then cleanse_cell True (?l' ! p) else ?l' ! p)"
    if "p < length keys + 2" for p
  proof -
    have "row ! p = cleanse_at ?iv (?l' @ rest1) ! p"
      unfolding shape using that by (simp add: nth_append)
    also have "\<dots> = (if p = ?iv then cleanse_cell True ((?l' @ rest1) ! p) else (?l' @ rest1) ! p)"
      using that by (simp add: cleanse_at_def)
    also have "(?l' @ rest1) ! p = ?l' ! p" using that by (simp add: nth_append)
    finally show ?thesis .
  qed
  have valcell: "row ! col_index (columns out) ''Value'' = cleanse_cell True (r ! col_index ?L v)"
  proof -
    have "col_index (columns out) ''Value'' = ?iv"
      unfolding cols using vk by (simp add: col_index_append_notin)
    moreover have "row ! ?iv = cleanse_cell True (?l' ! ?iv)" using pre[of ?iv] by simp
    moreover have "?l' ! ?iv = ?l ! ?iv"
      using other[of ?iv "''Value''"] ivLL by simp
    ultimately show ?thesis by (simp add: melt_row_cell)
  qed
  have keycell: "row ! col_index (columns out) k = r ! col_index ?L k"
    if k: "k \<in> set keys" "k \<notin> {''Respondent'', ''Panel'', ''Name''}" for k
  proof -
    let ?p = "col_index keys k"
    have p: "?p < length keys" using k(1) by (rule col_index_less)
    have c1: "col_index (columns out) k = ?p"
      unfolding cols using k(1) by (simp add: col_index_append)
    have c2: "col_index ?LL k = ?p" using k(1) by (simp add: col_index_append)
    have "row ! ?p = ?l' ! ?p" using pre[of ?p] p by simp
    also have "\<dots> = ?l ! ?p" using other[of ?p k] c2 k by simp
    also have "\<dots> = r ! col_index ?L (keys ! ?p)" using p by (rule melt_row_key)
    also have "keys ! ?p = k" using k(1) by (rule col_index_nth)
    finally show ?thesis using c1 by simp
  qed
  show ?thesis using r v nn valcell keycell by blast
qed

lemma cleanse_cell_upper_text:
  "notna x \<Longrightarrow> \<exists>t. cleanse_cell True x = Text t \<and> py_upper t = t"
  by (cases x) (simp_all add: cleanse_cell_def notna_def normal_text_def)

lemma pipeline_value_cells:
  assumes run: "build_qc_output responses_df recon_df numerical_df drop_from_responses
                  responses_key_fields recon_sheet_expected = Inr out"
      and c: "c \<in> set (get_col out ''Value'')"
  shows "\<exists>x. notna x \<and> c = cleanse_cell True x"
proof -
  obtain row where row: "row \<in> set (rows out)" and cr: "c = row ! col_index (columns out) ''Value''"
    using c by (auto simp: get_col_def)
  from pipeline_cells[OF run refl refl refl row] cr show ?thesis by blast
qed

text \<open>
  Claim C10. On every run that returns a table: step 5 cleanses only \<open>Respondent\<close>,
  \<open>Panel\<close> and \<open>Name\<close>, so the long table enters the Stage-A merge with its \<open>Value\<close>
  column and every other key-field column as the reshape produced them; every output row
  stems from an input row and a value column with a non-missing cell, carries that input
  row's raw cell in every key-field column other than \<open>Respondent\<close>, \<open>Panel\<close> and
  \<open>Name\<close>, and carries the cleansed cell in \<open>Value\<close>; so every \<open>Value\<close> of the output is
  present and in cleansed form (cleansing it again changes nothing).
\<close>

theorem pipeline_cleansing_frame:
  assumes run: "build_qc_output responses_df recon_df numerical_df drop_from_responses
                  responses_key_fields recon_sheet_expected = Inr out"
      and pruned: "pruned = prune responses_df drop_from_responses"
      and keys: "keys = filter (\<lambda>c. c \<in> set (columns pruned)) (key_fields_of responses_key_fields)"
      and vcols: "value_cols = filter (\<lambda>c. c \<notin> set keys) (columns pruned)"
  shows "(\<exists>long_df long_clean recon_clean.
            reshape pruned responses_key_fields = Inr long_df \<and>
            cleanse_df long_df [''Respondent'', ''Panel'', ''Name''] True = Inr long_clean \<and>
            cleanse_df recon_df recon_cols_to_clean True = Inr recon_clean \<and>
            stage_a long_df recon_df = merge long_clean recon_clean ''Name'' HowInner ([], ''_recon'') \<and>
            get_col long_clean ''Value'' = get_col long_df ''Value'' \<and>
            (\<forall>k\<in>set keys. k \<notin> {''Respondent'', ''Panel'', ''Name''} \<longrightarrow>
               get_col long_clean k = get_col long_df k)) \<and>
         (\<forall>row\<in>set (rows out). \<exists>r\<in>set (rows pruned). \<exists>v\<in>set value_cols.
            notna (r ! col_index (columns pruned) v) \<and>
            (\<forall>k\<in>set keys. k \<notin> {''Respondent'', ''Panel'', ''Name''} \<longrightarrow>
               row ! col_index (columns out) k = r ! col_index (columns pruned) k) \<and>
            row ! col_index (columns out) ''Value'' = cleanse_cell True (r ! col_index (columns pruned) v)) \<and>
         (\<forall>c\<in>set (get_col out ''Value''). c \<noteq> Missing \<and> cleanse_cell True c = c)"
proof -
  let ?C = "[''Respondent'', ''Panel'', ''Name'']"
  obtain long_df where rs: "reshape pruned responses_key_fields = Inr long_df"
    using run unfolding build_qc_output_def pruned by (auto split: sum.splits)
  have cl: "columns long_df = keys @ [''Name'', ''Value'']"
    unfolding keys by (simp add: reshape_Inr_D(2)[OF rs])
  obtain long_clean where lc: "cleanse_df long_df ?C True = Inr long_clean"
    by (simp add: cleanse_df_rows)
  obtain recon_clean where rc: "cleanse_df recon_df recon_cols_to_clean True = Inr recon_clean"
    by (simp add: cleanse_df_rows)
  have sa: "stage_a long_df recon_df = merge long_clean recon_clean ''Name'' HowInner ([], ''_recon'')"
    unfolding stage_a_def lc rc by (simp only: sum.case)
  have fr: "get_col long_clean k = get_col long_df k" if "k \<in> set (columns long_df)" "k \<notin> set ?C" for k
    using cleanse_df_frame[OF that, of True] lc by auto
  have v: "get_col long_clean ''Value'' = get_col long_df ''Value''"
    by (rule fr) (simp_all add: cl)
  have k: "\<forall>k\<in>set keys. k \<notin> {''Respondent'', ''Panel'', ''Name''} \<longrightarrow>
             get_col long_clean k = get_col long_df k"
    using fr by (simp add: cl)
  have first: "\<exists>long_df long_clean recon_clean.
            reshape pruned responses_key_fields = Inr long_df \<and>
            cleanse_df long_df ?C True = Inr long_clean \<and>
            cleanse_df recon_df recon_cols_to_clean True = Inr recon_clean \<and>
            stage_a long_df recon_df = merge long_clean recon_clean ''Name'' HowInner ([], ''_recon'') \<and>
            get_col long_clean ''Value'' = get_col long_df ''Value'' \<and>
            (\<forall>k\<in>set keys. k \<notin> {''Respondent'', ''Panel'', ''Name''} \<longrightarrow>
               get_col long_clean k = get_col long_df k)"
    using rs lc rc sa v k by blast
  have second: "\<forall>row\<in>set (rows out). \<exists>r\<in>set (rows pruned). \<exists>v\<in>set value_cols.
            notna (r ! col_index (columns pruned) v) \<and>
            (\<forall>k\<in>set keys. k \<notin> {''Respondent'', ''Panel'', ''Name''} \<longrightarrow>
               row ! col_index (columns out) k = r ! col_index (columns pruned) k) \<and>
            row ! col_index (columns out) ''Value'' = cleanse_cell True (r ! col_index (columns pruned) v)"
    using pipeline_cells[OF run pruned keys vcols] by blast
  have third: "\<forall>c\<in>set (get_col out ''Value''). c \<noteq> Missing \<and> cleanse_cell True c = c"
  proof
    fix c assume "c \<in> set (get_col out ''Value'')"
    then obtain x where "notna x" "c = cleanse_cell True x"
      using pipeline_value_cells[OF run] by blast
    then show "c \<noteq> Missing \<and> cleanse_cell True c = c"
      by (simp add: cleanse_cell_notna cleanse_cell_idem)
  qed
  show ?thesis using first second third by blast
qed

theorem pipeline_cleansing_frame_witness:
  "build_qc_output sample_responses sample_recon sample_numerical
     (Some [''Status'', ''Term reason'']) None True = Inr sample_out \<and>
   list_all (\<lambda>c. c \<noteq> Missing \<and> cleanse_cell True c = c) (get_col sample_out ''Value'') \<and>
   get_col sample_out ''End time (GMT)'' =
     [Text ''10:00  am'', Text ''10:00  am'', Text ''10:00  am'', Text ''10:00  am'',
      Text '' 11:30'', Text '' 11:30'', Text '' 11:30'']"
proof -
  have h: "build_qc_output sample_responses sample_recon sample_numerical
     (Some [''Status'', ''Term reason'']) None True = Inr sample_out"
    by code_simp
  from pipeline_cleansing_frame[OF h refl refl refl]
  have "\<forall>c\<in>set (get_col sample_out ''Value''). c \<noteq> Missing \<and> cleanse_cell True c = c"
    by blast
  then have "list_all (\<lambda>c. c \<noteq> Missing \<and> cleanse_cell True c = c) (get_col sample_out ''Value'')"
    by (simp only: list_all_iff)
  moreover have "get_col sample_out ''End time (GMT)'' =
     [Text ''10:00  am'', Text ''10:00  am'', Text ''10:00  am'', Text ''10:00  am'',
      Text '' 11:30'', Text '' 11:30'', Text '' 11:30'']"
    by code_simp
  ultimately show ?thesis using h by blast
qed

subsection \<open>Upper-casing\<close>

lemma str_upper_cleanse_cell: "str_upper (cleanse_cell False c) = cleanse_cell True c"
  by (cases c) (simp_all add: cleanse_cell_def normal_text_def)

text \<open>
  Claim C7, as amended. \<open>build_qc_output\<close> has no case-fold option: its only flag,
  \<open>recon_sheet_expected\<close>, does not change the result, and every \<open>Value\<close> of every
  output is upper-cased text. The flag exists on the Cleanser alone (\<open>upper\<close>): with the
  flag set the Cleanser returns the upper-cased result of the Cleanser with the flag
  unset, which leaves the case as it is.
\<close>

theorem pipeline_always_upper:
  "build_qc_output responses_df recon_df numerical_df drop_from_responses responses_key_fields flag =
     build_qc_output responses_df recon_df numerical_df drop_from_responses responses_key_fields (\<not> flag) \<and>
   cleanse_series s True =
     (case cleanse_series s False of Inl e \<Rightarrow> Inl e | Inr v \<Rightarrow> Inr (map str_upper v)) \<and>
   (\<forall>out. build_qc_output responses_df recon_df numerical_df drop_from_responses
             responses_key_fields flag = Inr out \<longrightarrow>
      (\<forall>c\<in>set (get_col out ''Value''). \<exists>t. c = Text t \<and> py_upper t = t))"
proof -
  have a: "build_qc_output responses_df recon_df numerical_df drop_from_responses responses_key_fields flag =
     build_qc_output responses_df recon_df numerical_df drop_from_responses responses_key_fields (\<not> flag)"
    by (simp add: build_qc_output_def)
  have b: "cleanse_series s True =
     (case cleanse_series s False of Inl e \<Rightarrow> Inl e | Inr v \<Rightarrow> Inr (map str_upper v))"
    by (simp add: cleanse_series_map str_upper_cleanse_cell)
  have c: "\<exists>t. c = Text t \<and> py_upper t = t"
    if "build_qc_output responses_df recon_df numerical_df drop_from_responses
             responses_key_fields flag = Inr out" "c \<in> set (get_col out ''Value'')" for out c
    using pipeline_value_cells[OF that] cleanse_cell_upper_text by blast
  show ?thesis using a b c by blast
qed

theorem pipeline_always_upper_witness:
  "build_qc_output scenario_responses scenario_recon scenario_numerical None
     (Some [''Respondent'']) False = Inr scenario_out \<and>
   list_all (\<lambda>c. \<exists>t. c = Text t \<and> py_upper t = t) (get_col scenario_out ''Value'')"
proof -
  have h: "build_qc_output scenario_responses scenario_recon scenario_numerical None
     (Some [''Respondent'']) False = Inr scenario_out"
    by code_simp
  from pipeline_always_upper[of scenario_responses scenario_recon scenario_numerical None
      "Some [''Respondent'']" False] h
  have "\<forall>c\<in>set (get_col scenario_out ''Value''). \<exists>t. c = Text t \<and> py_upper t = t"
    by blast
  then have "list_all (\<lambda>c. \<exists>t. c = Text t \<and> py_upper t = t) (get_col scenario_out ''Value'')"
    by (simp only: list_all_iff)
  then show ?thesis using h by blast
qed

text \<open>Claim C7 as stated fails: with the pipeline's only flag unset (or set), the text of
  the scenario is upper-cased.\<close>

theorem case_fold_counterexample:
  "build_qc_output scenario_responses scenario_recon scenario_numerical None
     (Some [''Respondent'']) False =
     Inr \<lparr>columns = [''Respondent'', ''Name'', ''Value'', ''Section'', ''Code''],
          rows = [[Text ''R1'', Text ''Q1'', Text ''YES'', Text ''A'', Num 1]]\<rparr> \<and>
   build_qc_output scenario_responses scenario_recon scenario_numerical None
     (Some [''Respondent'']) True =
     Inr \<lparr>columns = [''Respondent'', ''Name'', ''Value'', ''Section'', ''Code''],
          rows = [[Text ''R1'', Text ''Q1'', Text ''YES'', Text ''A'', Num 1]]\<rparr>"
  by code_simp

subsection \<open>Errors\<close>

lemma merge_rows_inner_empty_right: "merge_rows HowInner i j n [] l = []"
  by (simp add: merge_rows_def)

lemma merge_rows_left_empty_right: "length (merge_rows HowLeft i j n [] l) = 1"
  by (simp add: merge_rows_def)

lemma stage_a_errors:
  "stage_a long_df recon_df =
     (if ''Name'' \<notin> set (columns long_df) \<or> ''Name'' \<notin> set (columns recon_df)
      then Inl (KeyError ''Name'')
      else if suffix_clash (columns recon_df)
                (suffix_labels (columns recon_df) (columns long_df) ''Name'' ''_recon'')
      then Inl (MergeError ''Name'')
      else Inr (merged (long_df\<lparr>rows := map (cleanse_row (columns long_df) [''Respondent'', ''Panel'', ''Name''] True)
                                          (rows long_df)\<rparr>)
                       (recon_df\<lparr>rows := map (cleanse_row (columns recon_df) recon_cols_to_clean True)
                                           (rows recon_df)\<rparr>)
                       ''Name'' HowInner ''_recon''))"
  by (simp add: stage_a_closed merge_closed)

lemma stage_b_errors:
  "stage_b joined numerical_df =
     (if ''Value'' \<notin> set (columns joined) \<or> ''Value'' \<notin> set (columns numerical_df)
      then Inl (KeyError ''Value'')
      else if suffix_clash (columns numerical_df)
                (suffix_labels (columns numerical_df) (columns joined) ''Value'' ''_num'')
      then Inl (MergeError ''Value'')
      else Inr (merged (joined\<lparr>rows := map (cleanse_at (col_index (columns joined) ''Value'')) (rows joined)\<rparr>)
                       (numerical_df\<lparr>rows := map (cleanse_at (col_index (columns numerical_df) ''Value''))
                                               (rows numerical_df)\<rparr>)
                       ''Value'' HowLeft ''_num''))"
  by (simp add: stage_b_closed merge_closed)

text \<open>
  Claim C5, as amended. Zero rows and zero matches never make a join stage raise: when
  both sides have the join key column and suffixing makes no two labels of the right
  table clash, Stage A and Stage B return a table, for tables without rows too (Stage A
  then returns no rows; Stage B returns no rows for no input rows, and keeps every row
  when the numeric table has none). A join stage raises \<open>KeyError\<close> when a side has no
  key column (\<open>Name\<close>, \<open>Value\<close>), as a table without columns has none. A configured
  key field that the response table lacks changes nothing: the run is the run with that
  key field left out of the configuration, so a column missing to reshape against is no
  error.
\<close>

theorem join_stages_errors:
  "(wf_table long_df \<and> wf_table recon_df \<and>
    ''Name'' \<in> set (columns long_df) \<and> ''Name'' \<in> set (columns recon_df) \<and>
      \<not> suffix_clash (columns recon_df)
           (suffix_labels (columns recon_df) (columns long_df) ''Name'' ''_recon'')
      \<longrightarrow> (\<exists>joined. stage_a long_df recon_df = Inr joined \<and>
             (rows long_df = [] \<or> rows recon_df = [] \<longrightarrow> rows joined = []))) \<and>
   (wf_table long_df \<and> wf_table recon_df \<and>
    (''Name'' \<notin> set (columns long_df) \<or> ''Name'' \<notin> set (columns recon_df))
      \<longrightarrow> stage_a long_df recon_df = Inl (KeyError ''Name'')) \<and>
   (wf_table joined \<and> wf_table numerical_df \<and>
    ''Value'' \<in> set (columns joined) \<and> ''Value'' \<in> set (columns numerical_df) \<and>
      \<not> suffix_clash (columns numerical_df)
           (suffix_labels (columns numerical_df) (columns joined) ''Value'' ''_num'')
      \<longrightarrow> (\<exists>out. stage_b joined numerical_df = Inr out \<and>
             (rows joined = [] \<longrightarrow> rows out = []) \<and>
             (rows numerical_df = [] \<longrightarrow> length (rows out) = length (rows joined)))) \<and>
   (wf_table joined \<and> wf_table numerical_df \<and>
    (''Value'' \<notin> set (columns joined) \<or> ''Value'' \<notin> set (columns numerical_df))
      \<longrightarrow> stage_b joined numerical_df = Inl (KeyError ''Value'')) \<and>
   build_qc_output responses_df recon_df numerical_df drop_from_responses
     responses_key_fields recon_sheet_expected =
   build_qc_output responses_df recon_df numerical_df drop_from_responses
     (Some (filter (\<lambda>c. c \<in> set (columns (prune responses_df drop_from_responses)))
                   (key_fields_of responses_key_fields)))
     recon_sheet_expected"
proof -
  have a: "\<exists>joined. stage_a long_df recon_df = Inr joined \<and>
             (rows long_df = [] \<or> rows recon_df = [] \<longrightarrow> rows joined = [])"
    if "''Name'' \<in> set (columns long_df)" "''Name'' \<in> set (columns recon_df)"
       "\<not> suffix_clash (columns recon_df)
           (suffix_labels (columns recon_df) (columns long_df) ''Name'' ''_recon'')"
    using that by (auto simp: stage_a_errors merge_rows_inner_empty_right)
  have b: "stage_a long_df recon_df = Inl (KeyError ''Name'')"
    if "''Name'' \<notin> set (columns long_df) \<or> ''Name'' \<notin> set (columns recon_df)"
    using that by (simp add: stage_a_errors)
  have c: "\<exists>out. stage_b joined numerical_df = Inr out \<and>
             (rows joined = [] \<longrightarrow> rows out = []) \<and>
             (rows numerical_df = [] \<longrightarrow> length (rows out) = length (rows joined))"
    if "''Value'' \<in> set (columns joined)" "''Value'' \<in> set (columns numerical_df)"
       "\<not> suffix_clash (columns numerical_df)
           (suffix_labels (columns numerical_df) (columns joined) ''Value'' ''_num'')"
  proof -
    have "length (concat (map (merge_rows HowLeft i j n [] \<circ> f) ls)) = length ls"
      for i j n f and ls :: "row list"
      by (induction ls) (simp_all add: merge_rows_left_empty_right)
    then show ?thesis using that by (auto simp: stage_b_errors)
  qed
  have d: "stage_b joined numerical_df = Inl (KeyError ''Value'')"
    if "''Value'' \<notin> set (columns joined) \<or> ''Value'' \<notin> set (columns numerical_df)"
    using that by (simp add: stage_b_errors)
  have e: "build_qc_output responses_df recon_df numerical_df drop_from_responses
             responses_key_fields recon_sheet_expected =
           build_qc_output responses_df recon_df numerical_df drop_from_responses
             (Some (filter (\<lambda>c. c \<in> set (columns (prune responses_df drop_from_responses)))
                           (key_fields_of responses_key_fields)))
             recon_sheet_expected"
    unfolding build_qc_output_def by (simp add: reshape_absent_keys)
  show ?thesis using a b c d e by blast
qed

theorem join_stages_errors_witness:
  "wf_table sample_long \<and> wf_table recon_no_rows \<and> wf_table sample_joined \<and>
   wf_table numerical_no_rows \<and> wf_table no_columns \<and>
   ''Name'' \<in> set (columns sample_long) \<and> ''Name'' \<in> set (columns recon_no_rows) \<and>
   \<not> suffix_clash (columns recon_no_rows)
        (suffix_labels (columns recon_no_rows) (columns sample_long) ''Name'' ''_recon'') \<and>
   (\<exists>joined. stage_a sample_long recon_no_rows = Inr joined \<and> rows joined = []) \<and>
   ''Value'' \<in> set (columns sample_joined) \<and> ''Value'' \<in> set (columns numerical_no_rows) \<and>
   \<not> suffix_clash (columns numerical_no_rows)
        (suffix_labels (columns numerical_no_rows) (columns sample_joined) ''Value'' ''_num'') \<and>
   (\<exists>out. stage_b sample_joined numerical_no_rows = Inr out \<and>
          length (rows out) = length (rows sample_joined)) \<and>
   stage_a sample_long no_columns = Inl (KeyError ''Name'') \<and>
   stage_b sample_joined no_columns = Inl (KeyError ''Value'')"
proof -
  have w: "wf_table sample_long" "wf_table recon_no_rows" "wf_table sample_joined"
    "wf_table numerical_no_rows" "wf_table no_columns"
    by code_simp+
  have a: "''Name'' \<in> set (columns sample_long)" "''Name'' \<in> set (columns recon_no_rows)"
    "\<not> suffix_clash (columns recon_no_rows)
        (suffix_labels (columns recon_no_rows) (columns sample_long) ''Name'' ''_recon'')"
    by code_simp+
  have b: "''Value'' \<in> set (columns sample_joined)" "''Value'' \<in> set (columns numerical_no_rows)"
    "\<not> suffix_clash (columns numerical_no_rows)
        (suffix_labels (columns numerical_no_rows) (columns sample_joined) ''Value'' ''_num'')"
    by code_simp+
  have c: "rows recon_no_rows = []" "rows numerical_no_rows = []"
    by (simp_all add: recon_no_rows_def numerical_no_rows_def)
  have d: "''Name'' \<notin> set (columns no_columns)" "''Value'' \<notin> set (columns no_columns)"
    by (simp_all add: no_columns_def)
  note t1 = join_stages_errors[of sample_long recon_no_rows sample_joined numerical_no_rows]
  note t2 = join_stages_errors[of sample_long no_columns sample_joined no_columns]
  have e: "\<exists>joined. stage_a sample_long recon_no_rows = Inr joined \<and> rows joined = []"
    using t1 w a c by blast
  have f: "\<exists>out. stage_b sample_joined numerical_no_rows = Inr out \<and>
          length (rows out) = length (rows sample_joined)"
    using t1 w b c by blast
  have g: "stage_a sample_long no_columns = Inl (KeyError ''Name'')"
    "stage_b sample_joined no_columns = Inl (KeyError ''Value'')"
    using t2 w d by blast+
  show ?thesis using w a b e f g by blast
qed

text \<open>Claim C5 as stated fails: a metadata table or a numeric table without columns makes
  the pipeline raise \<open>KeyError\<close>, in a join stage.\<close>

theorem empty_table_counterexample:
  "build_qc_output scenario_responses no_columns scenario_numerical None
     (Some [''Respondent'']) True = Inl (KeyError ''Name'') \<and>
   build_qc_output scenario_responses scenario_recon no_columns None
     (Some [''Respondent'']) True = Inl (KeyError ''Value'')"
  by code_simp

subsection \<open>The concrete scenario\<close>

text \<open>
  Claim C8, as amended. On the scenario's input the reshape yields the single row
  (\<open>r1 \<close>, \<open>Q1\<close>, \<open> yes \<close>), the row for \<open>Q2\<close> being dropped as missing; the cleansing of
  step 5 gives (\<open>R1\<close>, \<open>Q1\<close>, \<open> yes \<close>), the \<open>Value\<close> not cleansed yet; the Stage-A merge
  gives (\<open>R1\<close>, \<open>Q1\<close>, \<open> yes \<close>, \<open>A\<close>); step 8 cleanses the \<open>Value\<close> to \<open>YES\<close>; and the
  Stage-B output, which is the pipeline's output, is (\<open>R1\<close>, \<open>Q1\<close>, \<open>YES\<close>, \<open>A\<close>, 1).
\<close>

theorem scenario_trace:
  "reshape (prune scenario_responses None) (Some [''Respondent'']) = Inr scenario_long \<and>
   cleanse_df scenario_long [''Respondent'', ''Panel'', ''Name''] True = Inr scenario_long_clean \<and>
   stage_a scenario_long scenario_recon = Inr scenario_joined \<and>
   cleanse_joined scenario_joined = Inr scenario_joined_clean \<and>
   stage_b scenario_joined scenario_numerical = Inr scenario_out \<and>
   build_qc_output scenario_responses scenario_recon scenario_numerical None
     (Some [''Respondent'']) True = Inr scenario_out"
  by code_simp

text \<open>Claim C8 as stated fails at two of its steps: after the cleansing, and after
  Stage A, the \<open>Value\<close> is not \<open>YES\<close>.\<close>

theorem scenario_counterexample:
  "reshape (prune scenario_responses None) (Some [''Respondent'']) = Inr scenario_long \<and>
   cleanse_df scenario_long [''Respondent'', ''Panel'', ''Name''] True \<noteq>
     Inr \<lparr>columns = [''Respondent'', ''Name'', ''Value''],
          rows = [[Text ''R1'', Text ''Q1'', Text ''YES'']]\<rparr> \<and>
   stage_a scenario_long scenario_recon \<noteq>
     Inr \<lparr>columns = [''Respondent'', ''Name'', ''Value'', ''Section''],
          rows = [[Text ''R1'', Text ''Q1'', Text ''YES'', Text ''A'']]\<rparr>"
  by code_simp

section \<open>Properties of the pipeline on the store\<close>

lemma unchanged_below_refl: "n \<le> length h \<Longrightarrow> unchanged_below n h h"
  by (simp add: unchanged_below_def)

lemma unchanged_below_trans:
  "unchanged_below n h h' \<Longrightarrow> unchanged_below n h' h'' \<Longrightarrow> unchanged_below n h h''"
  by (simp add: unchanged_below_def)

lemma unchanged_below_mono:
  "unchanged_below m h h' \<Longrightarrow> n \<le> m \<Longrightarrow> unchanged_below n h h'"
proof -
  assume a: "unchanged_below m h h'" and nm: "n \<le> m"
  have "take n (take m h') = take n (take m h)" using a by (simp add: unchanged_below_def)
  then have "take n h' = take n h" using nm by (simp add: min_def)
  then show ?thesis using a nm by (simp add: unchanged_below_def)
qed

lemma unchanged_below_append: "n \<le> length h \<Longrightarrow> unchanged_below n h (h @ xs)"
  by (simp add: unchanged_below_def)

lemma unchanged_below_update:
  "n \<le> length h \<Longrightarrow> n \<le> a \<Longrightarrow> unchanged_below n h (h[a := x])"
  by (simp add: unchanged_below_def)

lemma unchanged_below_nth:
  "unchanged_below n h h' \<Longrightarrow> a < n \<Longrightarrow> h' ! a = h ! a"
  by (metis nth_take unchanged_below_def)

lemma unchanged_below_frame_at:
  "unchanged_below n h h' \<Longrightarrow> a < n \<Longrightarrow> frame_at h' a = frame_at h a"
  using unchanged_below_nth[of n h h' a] by (simp add: frame_at_def unchanged_below_def)

lemma unchanged_below_length: "unchanged_below n h h' \<Longrightarrow> n \<le> length h'"
  by (simp add: unchanged_below_def)

lemma frame_at_new [simp]: "frame_at (h @ [Frame t]) (length h) = t"
  by (simp add: frame_at_def)

lemma frame_at_append [simp]: "a < length h \<Longrightarrow> frame_at (h @ xs) a = frame_at h a"
  by (simp add: frame_at_def nth_append)

lemma frame_at_update_same [simp]: "a < length h \<Longrightarrow> frame_at (h[a := Frame t]) a = t"
  by (simp add: frame_at_def)

lemma frame_at_update_other [simp]: "b \<noteq> a \<Longrightarrow> frame_at (h[a := x]) b = frame_at h b"
  by (simp add: frame_at_def)

lemma series_read_new [simp]: "series_read (h @ [Series v]) (Own (length h)) = v"
  by simp

lemma loc_assign_new [simp]:
  "loc_assign (Own (length h)) flags x (h @ [Series v]) = h @ [Series (loc_set flags v x)]"
  by (simp add: loc_assign_def)

text \<open>The Cleanser on the heap: the column is copied to a new object, all writes go to
  the copy, and the copy holds what the pure Cleanser returns.\<close>

lemma cleanse_series_h_closed:
  "cleanse_series_h s upper h =
     (Inr (Own (length h)), h @ [Series (map (cleanse_cell upper) (series_read h s))])"
proof -
  let ?v = "series_read h s"
  have "cleanse_series_h s upper h =
        (case cleanse_series ?v upper of
           Inl e \<Rightarrow> (Inl e, h @ [Series (loc_set (map notna ?v) ?v
                                       (map (str_strip \<circ> astype_str) (loc_get (map notna ?v) ?v)))])
         | Inr w \<Rightarrow> (Inr (Own (length h)), h @ [Series w]))"
    unfolding cleanse_series_h_def cleanse_series_def series_copy_def
    by (simp add: Let_def split: sum.splits)
  then show ?thesis by (simp add: cleanse_series_map)
qed

lemma df_setitem_fresh_series:
  "d < length h \<Longrightarrow>
   df_setitem d c (Own (length h)) (h @ [Series v]) =
     (h[d := Frame (set_col (frame_at h d) c v)]) @ [Series v]"
  by (simp add: df_setitem_def list_update_append)

lemma cleanse_df_loop_h_spec:
  "d < length h \<Longrightarrow>
   \<exists>h'. cleanse_df_loop_h d cols upper h = (Inr d, h') \<and> unchanged_below d h h' \<and>
        d < length h' \<and> cleanse_df (frame_at h d) cols upper = Inr (frame_at h' d)"
proof (induction cols arbitrary: h)
  case Nil
  then show ?case by (simp add: unchanged_below_refl)
next
  case (Cons c cs)
  show ?case
  proof (cases "c \<in> set (columns (frame_at h d))")
    case False
    then show ?thesis using Cons.IH[OF Cons.prems] by simp
  next
    case True
    let ?v = "map (cleanse_cell upper) (get_col (frame_at h d) c)"
    let ?h2 = "(h[d := Frame (set_col (frame_at h d) c ?v)]) @ [Series ?v]"
    have d2: "d < length ?h2" using Cons.prems by simp
    obtain h' where l: "cleanse_df_loop_h d cs upper ?h2 = (Inr d, h')"
      and u: "unchanged_below d ?h2 h'" and dl: "d < length h'"
      and r: "cleanse_df (frame_at ?h2 d) cs upper = Inr (frame_at h' d)"
      using Cons.IH[OF d2] by blast
    have f2: "frame_at ?h2 d = set_col (frame_at h d) c ?v" using Cons.prems by simp
    have step: "cleanse_df_loop_h d (c # cs) upper h = (Inr d, h')"
      using True Cons.prems l by (simp add: cleanse_series_h_closed df_setitem_fresh_series)
    have "unchanged_below d h (h[d := Frame (set_col (frame_at h d) c ?v)])"
      using Cons.prems by (intro unchanged_below_update) simp_all
    moreover have "unchanged_below d (h[d := Frame (set_col (frame_at h d) c ?v)]) ?h2"
      using Cons.prems by (intro unchanged_below_append) simp
    ultimately have u2: "unchanged_below d h h'"
      using u unchanged_below_trans by blast
    have "cleanse_df (frame_at h d) (c # cs) upper = Inr (frame_at h' d)"
      using True r f2 by (simp add: cleanse_series_map)
    then show ?thesis using step u2 dl by blast
  qed
qed

lemma cleanse_df_h_spec:
  "\<exists>h'. cleanse_df_h a cols upper h = (Inr (length h), h') \<and> unchanged_below (length h) h h' \<and>
        length h < length h' \<and> cleanse_df (frame_at h a) cols upper = Inr (frame_at h' (length h))"
proof -
  let ?h1 = "h @ [Frame (frame_at h a)]"
  have "length h < length ?h1" by simp
  from cleanse_df_loop_h_spec[OF this, of cols upper]
  obtain h' where l: "cleanse_df_loop_h (length h) cols upper ?h1 = (Inr (length h), h')"
    and u: "unchanged_below (length h) ?h1 h'" and dl: "length h < length h'"
    and r: "cleanse_df (frame_at ?h1 (length h)) cols upper = Inr (frame_at h' (length h))"
    by blast
  have "cleanse_df_h a cols upper h = (Inr (length h), h')"
    using l by (simp add: cleanse_df_h_def df_copy_def alloc_def)
  moreover have "unchanged_below (length h) h h'"
    using unchanged_below_trans[OF unchanged_below_append[of "length h" h "[Frame (frame_at h a)]"] u]
    by simp
  ultimately show ?thesis using dl r by simp
qed

lemma returns_InlI: "pure = Inl e \<Longrightarrow> returns h (Inl e, h') pure"
  by (simp add: returns_def)

lemma returns_InrI:
  "length h \<le> a \<Longrightarrow> a < length h' \<Longrightarrow> pure = Inr (frame_at h' a) \<Longrightarrow> returns h (Inr a, h') pure"
  by (simp add: returns_def)

lemma new_frame_spec:
  "new_frame r h = (res, h') \<Longrightarrow> unchanged_below (length h) h h' \<and> returns h (res, h') r"
  by (cases r) (auto simp: new_frame_def returns_def unchanged_below_def)

lemma prune_h_spec:
  assumes "prune_h a d h = (p, h')" "a < length h"
  shows "unchanged_below (length h) h h' \<and> p < length h' \<and>
         frame_at h' p = prune (frame_at h a) d"
  using assms
  by (auto simp: prune_h_def prune_def alloc_def unchanged_below_def split: option.splits if_splits)

lemma reshape_h_spec:
  assumes "reshape_h a kf h = (res, h')"
  shows "unchanged_below (length h) h h' \<and> returns h (res, h') (reshape (frame_at h a) kf)"
proof -
  let ?t = "frame_at h a"
  let ?keys = "filter (\<lambda>c. c \<in> set (columns ?t)) (key_fields_of kf)"
  let ?data = "filter (\<lambda>c. c \<notin> set ?keys) (columns ?t)"
  show ?thesis
  proof (cases "melt ?t ?keys ?data ''Name'' ''Value''")
    case (Inl e)
    then show ?thesis using assms
      by (auto simp: reshape_h_def reshape_def new_frame_def Let_def returns_def unchanged_below_def)
  next
    case (Inr long)
    let ?h1 = "h @ [Frame long]"
    show ?thesis
    proof (cases "getitem long ''Value''")
      case (Inl e)
      then show ?thesis using assms Inr
        by (auto simp: reshape_h_def reshape_def new_frame_def Let_def returns_def unchanged_below_def)
    next
      case v: (Inr v)
      let ?sel = "boolean_index long (map notna v)"
      have sel: "frame_at (?h1 @ [Frame ?sel]) (Suc (length h)) = ?sel"
        using frame_at_new[of ?h1 ?sel] by simp
      have "res = Inr (Suc (length ?h1))" "h' = ?h1 @ [Frame ?sel, Frame ?sel]"
        using assms Inr v sel
        by (auto simp: reshape_h_def new_frame_def Let_def alloc_def df_copy_def)
      moreover have "frame_at (?h1 @ [Frame ?sel, Frame ?sel]) (Suc (length ?h1)) = ?sel"
        by (simp add: frame_at_def nth_append)
      ultimately show ?thesis using Inr v
        by (simp add: reshape_def Let_def returns_def unchanged_below_def)
    qed
  qed
qed

lemma stage_a_h_spec:
  assumes run: "stage_a_h l r h = (res, h')" and l: "l < length h" and r: "r < length h"
  shows "unchanged_below (length h) h h' \<and>
         returns h (res, h') (stage_a (frame_at h l) (frame_at h r))"
proof -
  obtain h1 where c1: "cleanse_df_h l [''Respondent'', ''Panel'', ''Name''] True h = (Inr (length h), h1)"
    and u1: "unchanged_below (length h) h h1" and l1: "length h < length h1"
    and p1: "cleanse_df (frame_at h l) [''Respondent'', ''Panel'', ''Name''] True = Inr (frame_at h1 (length h))"
    using cleanse_df_h_spec[of l "[''Respondent'', ''Panel'', ''Name'']" True h] by blast
  obtain h2 where c2: "cleanse_df_h r recon_cols_to_clean True h1 = (Inr (length h1), h2)"
    and u2: "unchanged_below (length h1) h1 h2" and l2: "length h1 < length h2"
    and p2: "cleanse_df (frame_at h1 r) recon_cols_to_clean True = Inr (frame_at h2 (length h1))"
    using cleanse_df_h_spec[of r recon_cols_to_clean True h1] by blast
  have fr: "frame_at h1 r = frame_at h r" using unchanged_below_frame_at[OF u1 r] .
  have fl: "frame_at h2 (length h) = frame_at h1 (length h)"
    using unchanged_below_frame_at[OF u2 l1] .
  let ?m = "merge (frame_at h2 (length h)) (frame_at h2 (length h1)) ''Name'' HowInner ([], ''_recon'')"
  have nf: "new_frame ?m h2 = (res, h')"
    using run by (simp add: stage_a_h_def c1 c2)
  have pure: "stage_a (frame_at h l) (frame_at h r) = ?m"
    unfolding stage_a_def p1 using p2 fr fl by simp
  have u12: "unchanged_below (length h) h h2"
    using unchanged_below_trans[OF u1 unchanged_below_mono[OF u2]] l1 by simp
  have u: "unchanged_below (length h) h h'"
    using unchanged_below_trans[OF u12 unchanged_below_mono[OF conjunct1[OF new_frame_spec[OF nf]]]]
      l1 l2 by simp
  have "returns h2 (res, h') ?m" using new_frame_spec[OF nf] by simp
  then have "returns h (res, h') ?m"
    using l1 l2 by (auto simp: returns_def split: sum.splits)
  then show ?thesis using u pure by simp
qed

lemma cleanse_numerical_h_spec:
  assumes num: "num < length h"
  shows "\<exists>nc hn. cleanse_numerical_h num h = (Inr nc, hn) \<and> unchanged_below (length h) h hn \<and>
           nc < length hn \<and> (nc = num \<or> length h \<le> nc) \<and>
           cleanse_numerical (frame_at h num) = Inr (frame_at hn nc)"
proof (cases "''Value'' \<in> set (columns (frame_at h num))")
  case False
  then show ?thesis using num
    by (simp add: cleanse_numerical_h_def cleanse_numerical_def unchanged_below_refl)
next
  case True
  let ?tn = "frame_at h num"
  let ?h1 = "h @ [Frame ?tn]"
  let ?v = "map (cleanse_cell True) (get_col ?tn ''Value'')"
  let ?hn = "(?h1[length h := Frame (set_col ?tn ''Value'' ?v)]) @ [Series ?v]"
  have d: "length h < length ?h1" by simp
  have set: "df_setitem (length h) ''Value'' (Own (length ?h1)) (?h1 @ [Series ?v]) = ?hn"
    using df_setitem_fresh_series[OF d, of "''Value''" ?v] by simp
  have run: "cleanse_numerical_h num h = (Inr (length h), ?hn)"
    using True set
    by (simp add: cleanse_numerical_h_def df_copy_def alloc_def cleanse_series_h_closed
        del: list_update_append1 append_assoc)
  have fr: "frame_at ?hn (length h) = set_col ?tn ''Value'' ?v"
    by (simp add: frame_at_def nth_append)
  have pure: "cleanse_numerical ?tn = Inr (set_col ?tn ''Value'' ?v)"
    using True by (simp add: cleanse_numerical_def cleanse_series_map)
  have u: "unchanged_below (length h) h ?hn"
    by (simp add: unchanged_below_def)
  show ?thesis using run fr pure u by auto
qed

lemma stage_b_h_spec:
  assumes run: "stage_b_h j num h = (res, h')"
      and j: "j < length h" and num: "num < n" and n: "n \<le> j"
  shows "unchanged_below n h h' \<and>
         returns h (res, h') (stage_b (frame_at h j) (frame_at h num))"
proof -
  have numl: "num < length h" using num n j by simp
  obtain nc hn where cn: "cleanse_numerical_h num h = (Inr nc, hn)"
    and un: "unchanged_below (length h) h hn" and ncl: "nc < length hn"
    and nc: "nc = num \<or> length h \<le> nc"
    and pn: "cleanse_numerical (frame_at h num) = Inr (frame_at hn nc)"
    using cleanse_numerical_h_spec[OF numl] by blast
  have ncj: "nc \<noteq> j" using nc num n j by auto
  have lhn: "length h \<le> length hn" using un by (simp add: unchanged_below_def)
  have jn: "j < length hn" using j lhn by simp
  have tj: "frame_at hn j = frame_at h j" using unchanged_below_frame_at[OF un j] .
  have unn: "unchanged_below n h hn"
    using unchanged_below_mono[OF un] n j by simp
  let ?tj = "frame_at h j"
  show ?thesis
  proof (cases "''Value'' \<in> set (columns ?tj)")
    case False
    have "cleanse_joined_h j hn = (Inl (KeyError ''Value''), hn)"
      using False tj by (simp add: cleanse_joined_h_def)
    then have "res = Inl (KeyError ''Value'')" "h' = hn"
      using run cn by (simp_all add: stage_b_h_def)
    moreover have "stage_b ?tj (frame_at h num) = Inl (KeyError ''Value'')"
      using False pn by (simp add: stage_b_def cleanse_joined_def getitem_def)
    ultimately show ?thesis using unn by (simp add: returns_def)
  next
    case True
    let ?w = "map (cleanse_cell True) (get_col ?tj ''Value'')"
    let ?hj = "(hn[j := Frame (set_col ?tj ''Value'' ?w)]) @ [Series ?w]"
    have cj: "cleanse_joined_h j hn = (Inr j, ?hj)"
      using True tj df_setitem_fresh_series[OF jn, of "''Value''" ?w]
      by (simp add: cleanse_joined_h_def cleanse_series_h_closed)
    have fj: "frame_at ?hj j = set_col ?tj ''Value'' ?w" using jn by simp
    have fnc: "frame_at ?hj nc = frame_at hn nc" using ncl ncj by simp
    have pj: "cleanse_joined ?tj = Inr (set_col ?tj ''Value'' ?w)"
      using True by (simp add: cleanse_joined_def getitem_def cleanse_series_map)
    let ?m = "merge (frame_at ?hj j) (frame_at ?hj nc) ''Value'' HowLeft ([], ''_num'')"
    have nf: "new_frame ?m ?hj = (res, h')"
      using run cn cj by (simp add: stage_b_h_def)
    have pure: "stage_b ?tj (frame_at h num) = ?m"
      unfolding stage_b_def pn pj fj fnc by simp
    have uj: "unchanged_below n hn ?hj"
      using n j lhn by (simp add: unchanged_below_def)
    have lj: "length h \<le> length ?hj" using lhn by simp
    have unf: "unchanged_below n ?hj h'"
      using unchanged_below_mono[OF conjunct1[OF new_frame_spec[OF nf]]] n j lhn by simp
    have u: "unchanged_below n h h'"
      using unchanged_below_trans[OF unchanged_below_trans[OF unn uj] unf] .
    have "returns ?hj (res, h') ?m" using new_frame_spec[OF nf] by simp
    then have "returns h (res, h') ?m"
      using lj by (auto simp: returns_def split: sum.splits)
    then show ?thesis using u pure by simp
  qed
qed

lemma build_qc_output_h_spec:
  assumes run: "build_qc_output_h responses_df recon_df numerical_df drop_from_responses
                  responses_key_fields recon_sheet_expected h = (res, h')"
      and v1: "responses_df < length h" and v2: "recon_df < length h" and v3: "numerical_df < length h"
  shows "unchanged_below (length h) h h' \<and>
         returns h (res, h')
           (build_qc_output (frame_at h responses_df) (frame_at h recon_df) (frame_at h numerical_df)
              drop_from_responses responses_key_fields recon_sheet_expected)"
proof -
  let ?n = "length h"
  obtain h1 where c0: "cleanse_df_h responses_df [] False h = (Inr ?n, h1)"
    and u1: "unchanged_below ?n h h1" and l1: "?n < length h1"
    and p0: "cleanse_df (frame_at h responses_df) [] False = Inr (frame_at h1 ?n)"
    using cleanse_df_h_spec[of responses_df "[]" False h] by blast
  obtain p h2 where pr: "prune_h ?n drop_from_responses h1 = (p, h2)" by (cases "prune_h ?n drop_from_responses h1")
  have ps: "unchanged_below (length h1) h1 h2" "p < length h2"
    "frame_at h2 p = prune (frame_at h1 ?n) drop_from_responses"
    using prune_h_spec[OF pr l1] by simp_all
  have l2: "length h1 \<le> length h2" using ps(1) by (simp add: unchanged_below_def)
  have u2: "unchanged_below ?n h h2"
    using unchanged_below_trans[OF u1 unchanged_below_mono[OF ps(1)]] l1 by simp
  obtain r3 h3 where rs: "reshape_h p responses_key_fields h2 = (r3, h3)"
    by (cases "reshape_h p responses_key_fields h2")
  have rsp: "unchanged_below (length h2) h2 h3"
    "returns h2 (r3, h3) (reshape (frame_at h2 p) responses_key_fields)"
    using reshape_h_spec[OF rs] by simp_all
  have l3: "length h2 \<le> length h3" using rsp(1) by (simp add: unchanged_below_def)
  have u3: "unchanged_below ?n h h3"
    using unchanged_below_trans[OF u2 unchanged_below_mono[OF rsp(1)]] l1 l2 by simp
  let ?pure = "build_qc_output (frame_at h responses_df) (frame_at h recon_df) (frame_at h numerical_df)
              drop_from_responses responses_key_fields recon_sheet_expected"
  show ?thesis
  proof (cases r3)
    case (Inl e)
    have "res = Inl e" "h' = h3"
      using run c0 pr rs Inl by (simp_all add: build_qc_output_h_def)
    moreover have "?pure = Inl e"
      using rsp(2) Inl ps(3) p0 by (simp add: returns_def build_qc_output_def)
    ultimately show ?thesis using u3 by (simp add: returns_def)
  next
    case (Inr l)
    have ll: "l < length h3" and lp: "reshape (frame_at h2 p) responses_key_fields = Inr (frame_at h3 l)"
      using rsp(2) Inr by (simp_all add: returns_def)
    have rl: "recon_df < length h3" using v2 l1 l2 l3 by simp
    obtain r4 h4 where sa: "stage_a_h l recon_df h3 = (r4, h4)"
      by (cases "stage_a_h l recon_df h3")
    have sas: "unchanged_below (length h3) h3 h4"
      "returns h3 (r4, h4) (stage_a (frame_at h3 l) (frame_at h3 recon_df))"
      using stage_a_h_spec[OF sa ll rl] by simp_all
    have fr: "frame_at h3 recon_df = frame_at h recon_df"
      using unchanged_below_frame_at[OF u3 v2] .
    have l4: "length h3 \<le> length h4" using sas(1) by (simp add: unchanged_below_def)
    have u4: "unchanged_below ?n h h4"
      using unchanged_below_trans[OF u3 unchanged_below_mono[OF sas(1)]] l1 l2 l3 by simp
    show ?thesis
    proof (cases r4)
      case e: (Inl e)
      have "res = Inl e" "h' = h4"
        using run c0 pr rs Inr sa e by (simp_all add: build_qc_output_h_def)
      moreover have "?pure = Inl e"
        using sas(2) e fr lp ps(3) p0 by (simp add: returns_def build_qc_output_def)
      ultimately show ?thesis using u4 by (simp add: returns_def)
    next
      case j: (Inr j)
      have jl: "j < length h4" and jn: "length h3 \<le> j"
        and jp: "stage_a (frame_at h3 l) (frame_at h3 recon_df) = Inr (frame_at h4 j)"
        using sas(2) j by (simp_all add: returns_def)
      have nj: "?n \<le> j" using jn l1 l2 l3 by simp
      have sb: "stage_b_h j numerical_df h4 = (res, h')"
        using run c0 pr rs Inr sa j by (simp add: build_qc_output_h_def)
      have sbs: "unchanged_below ?n h4 h'"
        "returns h4 (res, h') (stage_b (frame_at h4 j) (frame_at h4 numerical_df))"
        using stage_b_h_spec[OF sb jl v3 nj] by simp_all
      have fn: "frame_at h4 numerical_df = frame_at h numerical_df"
        using unchanged_below_frame_at[OF u4 v3] .
      have "?pure = stage_b (frame_at h4 j) (frame_at h4 numerical_df)"
        using jp fr lp ps(3) p0 fn by (simp add: build_qc_output_def)
      moreover have "returns h (res, h') (stage_b (frame_at h4 j) (frame_at h4 numerical_df))"
        using sbs(2) l1 l2 l3 l4 by (auto simp: returns_def split: sum.splits)
      ultimately show ?thesis
        using unchanged_below_trans[OF u4 sbs(1)] by simp
    qed
  qed
qed

text \<open>
  Claim C9. Every invocation of \<open>build_qc_output\<close> on three tables of the store, whether
  it returns a table or raises, leaves the responses, metadata and numeric tables as
  they were; indeed every object that existed before the call is unchanged after it
  (the run writes only to objects it has created itself).
\<close>

theorem inputs_not_mutated:
  assumes "build_qc_output_h responses_df recon_df numerical_df drop_from_responses
             responses_key_fields recon_sheet_expected h = (res, h')"
      and "responses_df < length h" and "recon_df < length h" and "numerical_df < length h"
  shows "h' ! responses_df = h ! responses_df \<and> h' ! recon_df = h ! recon_df \<and>
         h' ! numerical_df = h ! numerical_df \<and> take (length h) h' = h"
proof -
  have u: "unchanged_below (length h) h h'"
    using build_qc_output_h_spec[OF assms] by simp
  then have "take (length h) h' = h" by (simp add: unchanged_below_def)
  then show ?thesis
    using unchanged_below_nth[OF u] assms(2-4) by simp
qed

theorem inputs_not_mutated_witness:
  "fst (build_qc_output_h 0 1 2 None (Some [''Respondent'']) True scenario_heap) = Inr 17 \<and>
   (0::nat) < length scenario_heap \<and> (1::nat) < length scenario_heap \<and>
   (2::nat) < length scenario_heap \<and>
   take (length scenario_heap)
     (snd (build_qc_output_h 0 1 2 None (Some [''Respondent'']) True scenario_heap)) = scenario_heap"
proof -
  have l: "(0::nat) < length scenario_heap" "(1::nat) < length scenario_heap"
    "(2::nat) < length scenario_heap"
    by (simp_all add: scenario_heap_def)
  have r: "fst (build_qc_output_h 0 1 2 None (Some [''Respondent'']) True scenario_heap) = Inr 17"
    by code_simp
  from inputs_not_mutated[OF prod.collapse[symmetric] l]
  have "take (length scenario_heap)
     (snd (build_qc_output_h 0 1 2 None (Some [''Respondent'']) True scenario_heap)) = scenario_heap"
    by blast
  then show ?thesis using l r by blast
qed

text \<open>The run on the store computes the pure pipeline of the tables it is given.\<close>

lemma build_qc_output_h_refines:
  assumes "build_qc_output_h responses_df recon_df numerical_df drop_from_responses
             responses_key_fields recon_sheet_expected h = (res, h')"
      and "responses_df < length h" and "recon_df < length h" and "numerical_df < length h"
  shows "build_qc_output (frame_at h responses_df) (frame_at h recon_df) (frame_at h numerical_df)
           drop_from_responses responses_key_fields recon_sheet_expected =
         (case res of Inl e \<Rightarrow> Inl e | Inr a \<Rightarrow> Inr (frame_at h' a))"
  using build_qc_output_h_spec[OF assms] by (auto simp: returns_def split: sum.splits)

end
